theory Spec2Isabelle
  imports Main "HOL-Library.AList" "HOL-Library.Sublist" "HOL-Library.Multiset"
begin

section \<open>The dispatch engine of flux.js\<close>

text \<open>
  The development embeds class \<open>BaseDispatcher\<close> of \<open>src/flux.js\<close>: the registry
  \<open>_payloadables\<close>, the round flags \<open>_isPending\<close> and \<open>_isHandled\<close>, the counter
  \<open>_lastID\<close>, and the methods \<open>register\<close>, \<open>unregister\<close>, \<open>waitFor\<close>, \<open>dispatch\<close>,
  \<open>isDispatching\<close>, \<open>_invokePayloadable\<close>, \<open>_startDispatching\<close>, \<open>_stopDispatching\<close>.
\<close>

subsection \<open>Errors\<close>

text \<open>
  Every failure of the engine is an \<open>Error\<close> thrown by \<open>invariant(false, format, id)\<close>; the
  four formats of the source are the first four constructors, which carry the value
  substituted for \<open>%s\<close>:
  \<^item> \<open>UnknownSubscriber id\<close>: "`%s` does not map to a registered callback." (lines 77 and 95);
  \<^item> \<open>NotDispatching\<close>: "Must be invoked while dispatching." (line 88);
  \<^item> \<open>CircularDependency id\<close>: "Circular dependency detected while waiting for `%s`." (line 92);
  \<^item> \<open>ReentrantDispatch\<close>: "Cannot dispatch in the middle of a dispatch." (line 104).
  \<open>TypeError\<close> is what JavaScript raises on a property read of \<open>undefined\<close> or \<open>null\<close>, and
  \<open>Thrown x\<close> is an error raised by a subscriber's own code.
\<close>

datatype error =
    UnknownSubscriber string
  | NotDispatching
  | CircularDependency string
  | ReentrantDispatch
  | TypeError
  | Thrown string

subsection \<open>Subscriber callbacks\<close>

text \<open>
  The values a callback may hand to \<open>waitFor\<close>, which reads \<open>id.dispatchToken\<close> of each:
  an object whose \<open>dispatchToken\<close> is the given string (a Store or Controller), an object
  without that property, a primitive string (a raw token: its \<open>dispatchToken\<close> is
  \<open>undefined\<close>), and \<open>null\<close>/\<open>undefined\<close> (the read raises a TypeError).
\<close>

datatype arg =
    Subscriber string
  | PlainObject
  | RawString string
  | Nullish

text \<open>
  A callback is client code. It is modelled by the tree of its interactions with the
  engine: each node is one call of a public method, and the continuation receives what the
  call returned or raised (so a callback may catch an error and go on, or rethrow it).
  \<open>Act l\<close> is an observable action of the callback itself, recorded in the trace.
\<close>

datatype 'p prog =
    Return
  | Throw error
  | Act string "'p prog"
  | WaitFor "arg list" "error + unit \<Rightarrow> 'p prog"
  | Dispatch 'p "error + unit \<Rightarrow> 'p prog"
  | Register "'p option \<Rightarrow> 'p prog" "string \<Rightarrow> 'p prog"
  | Unregister string "error + unit \<Rightarrow> 'p prog"
  | IsDispatching "bool \<Rightarrow> 'p prog"

text \<open>A call whose error the callback does not catch: the error propagates.\<close>

definition uncaught :: "'p prog \<Rightarrow> error + unit \<Rightarrow> 'p prog" where
  "uncaught k r = (case r of Inl e \<Rightarrow> Throw e | Inr _ \<Rightarrow> k)"

text \<open>
  A callback that first does things of its own, with no call to the engine, and then goes
  on as \<open>c\<close>.
\<close>

fun doing :: "string list \<Rightarrow> 'p prog \<Rightarrow> 'p prog" where
  "doing [] c = c"
| "doing (l # ls) c = Act l (doing ls c)"

subsection \<open>The engine state\<close>

text \<open>
  The trace is a ghost field: \<open>Enter s id\<close> when \<open>_invokePayloadable(id)\<close> calls the
  callback (\<open>s\<close> is the call site, line 111 or line 96), \<open>Leave id\<close> when the callback has
  returned, \<open>Did l\<close> for an action of a callback.
\<close>

datatype site = FromDispatch | FromWaitFor

datatype event = Enter site string | Leave string | Did string

text \<open>
  \<open>_payloadables\<close> is a JavaScript object: its own properties in insertion order (the
  order \<open>for ... in\<close> follows for keys that are not array indices). \<open>_pendingPayload\<close> is
  \<open>None\<close> while the property is absent. \<open>_lastID\<close> is a Number holding an integer.
\<close>

record 'p dispatcher =
  payloadables :: "(string \<times> ('p option \<Rightarrow> 'p prog)) list"
  dispatching :: bool
  isHandled :: "string \<rightharpoonup> bool"
  isPending :: "string \<rightharpoonup> bool"
  lastID :: nat
  pendingPayload :: "'p option"
  trace :: "event list"

definition new_dispatcher :: "'p dispatcher" where
  "new_dispatcher = \<lparr> payloadables = [], dispatching = False, isHandled = Map.empty,
     isPending = Map.empty, lastID = 1, pendingPayload = None, trace = [] \<rparr>"

subsection \<open>Property reads on object literals\<close>

text \<open>
  The three tables are created by \<open>{}\<close>, so a read \<open>obj[id]\<close> of a key that is not an own
  property continues in \<open>Object.prototype\<close>, whose standard properties (listed here as
  ECMAScript defines them) are all truthy. The registry's own values are subscriber
  objects, which are truthy; the flags' own values are \<open>true\<close> and \<open>false\<close>.
\<close>

definition Object_prototype :: "string list" where
  "Object_prototype = [''constructor'', ''hasOwnProperty'', ''isPrototypeOf'',
     ''propertyIsEnumerable'', ''toLocaleString'', ''toString'', ''valueOf'', ''__proto__'',
     ''__defineGetter__'', ''__defineSetter__'', ''__lookupGetter__'', ''__lookupSetter__'']"

definition truthy :: "(string \<rightharpoonup> bool) \<Rightarrow> string \<Rightarrow> bool" where
  "truthy flags tok = (case flags tok of Some b \<Rightarrow> b | None \<Rightarrow> tok \<in> set Object_prototype)"

definition has_payloadable :: "'p dispatcher \<Rightarrow> string \<Rightarrow> bool" where
  "has_payloadable st tok =
     (case map_of (payloadables st) tok of Some _ \<Rightarrow> True | None \<Rightarrow> tok \<in> set Object_prototype)"

subsection \<open>Tokens\<close>

text \<open>The decimal digits of a natural number, as \<open>'ID_' + n\<close> converts an integer below 1e21.\<close>

definition Digits :: string where
  "Digits = ''0123456789''"

definition digit :: "nat \<Rightarrow> char" where
  "digit d = Digits ! (d mod 10)"

fun decimal :: "nat \<Rightarrow> string" where
  "decimal n = (if n < 10 then [digit n] else decimal (n div 10) @ [digit (n mod 10)])"

declare decimal.simps [simp del]

definition Prefix :: string where
  "Prefix = ''ID_''"

text \<open>
  \<open>this._lastID++\<close> on a Number: below \<open>2^53\<close> the successor is exact; at \<open>2^53\<close> the sum
  \<open>2^53 + 1\<close> rounds back to \<open>2^53\<close>. The counter starts at 1, so it never leaves this range.
\<close>

definition increment :: "nat \<Rightarrow> nat" where
  "increment n = (if n < 2 ^ 53 then n + 1 else n)"

subsection \<open>register, unregister, isDispatching\<close>

definition register :: "('p option \<Rightarrow> 'p prog) \<Rightarrow> 'p dispatcher \<Rightarrow> string \<times> 'p dispatcher" where
  "register payloadable st =
     (let tok = Prefix @ decimal (lastID st) in
      (tok, st\<lparr> lastID := increment (lastID st),
                payloadables := AList.update tok payloadable (payloadables st) \<rparr>))"

definition unregister :: "string \<Rightarrow> 'p dispatcher \<Rightarrow> (error + unit) \<times> 'p dispatcher" where
  "unregister tok st =
     (if \<not> has_payloadable st tok then (Inl (UnknownSubscriber tok), st)
      else (Inr (), st\<lparr> payloadables := AList.delete tok (payloadables st) \<rparr>))"

definition isDispatching :: "'p dispatcher \<Rightarrow> bool" where
  "isDispatching st = dispatching st"

subsection \<open>Round bookkeeping\<close>

definition startDispatching :: "'p \<Rightarrow> 'p dispatcher \<Rightarrow> 'p dispatcher" where
  "startDispatching payload st =
     st\<lparr> isPending := fold (\<lambda>tok m. m(tok \<mapsto> False)) (map fst (payloadables st)) (isPending st),
         isHandled := fold (\<lambda>tok m. m(tok \<mapsto> False)) (map fst (payloadables st)) (isHandled st),
         pendingPayload := Some payload,
         dispatching := True \<rparr>"

definition stopDispatching :: "'p dispatcher \<Rightarrow> 'p dispatcher" where
  "stopDispatching st = st\<lparr> pendingPayload := None, dispatching := False \<rparr>"

subsection \<open>waitFor, dispatch and the invocation of a callback\<close>

text \<open>\<open>ids.map(id => id.dispatchToken)\<close>: \<open>None\<close> is \<open>undefined\<close>.\<close>

fun dispatchToken :: "arg \<Rightarrow> error + string option" where
  "dispatchToken (Subscriber t) = Inr (Some t)"
| "dispatchToken PlainObject = Inr None"
| "dispatchToken (RawString s) = Inr None"
| "dispatchToken Nullish = Inl TypeError"

fun dispatchTokens :: "arg list \<Rightarrow> error + string option list" where
  "dispatchTokens [] = Inr []"
| "dispatchTokens (a # as) =
     (case dispatchToken a of
        Inl e \<Rightarrow> Inl e
      | Inr t \<Rightarrow> (case dispatchTokens as of Inl e \<Rightarrow> Inl e | Inr ts \<Rightarrow> Inr (t # ts)))"

text \<open>The property key (and the text put in a message) for a value: \<open>String(undefined)\<close>.\<close>

fun key :: "string option \<Rightarrow> string" where
  "key None = ''undefined''"
| "key (Some s) = s"

type_synonym 'p outcome = "((error + unit) \<times> 'p dispatcher) option"

text \<open>
  The methods call each other and the callbacks call the methods, so they are defined
  together, on a fuel that every call of a callback and every step of one uses up;
  \<open>None\<close> is "out of fuel", and a result reached with some fuel is the result with any
  more (\<open>fuel_mono_all\<close> below). Callbacks being finite trees, some amount of fuel
  always suffices for a \<open>dispatch\<close> call (\<open>dispatch_ends\<close> below).

  \<open>run\<close> executes a callback: each node of its tree calls the method it names and hands
  the outcome to the continuation. \<open>invokePayloadable\<close> is \<open>_invokePayloadable\<close>; its
  argument \<open>s\<close> only labels the ghost event. When the registry has no own property \<open>id\<close>,
  \<open>payloadable\<close> is \<open>undefined\<close> or a property of \<open>Object.prototype\<close>, and line 134 raises
  a TypeError. The callback receives \<open>this._pendingPayload\<close>, \<open>None\<close> when it is absent.

  \<open>dispatch_loop\<close> is the \<open>for (let id in this._payloadables)\<close> of \<open>dispatch\<close>. ECMAScript
  fixes the keys of a \<open>for ... in\<close> when the loop starts, passes over a key whose property
  has been deleted before its turn, and does not visit a property added meanwhile; none of
  the object's keys is an array index, so the order is that of insertion.
  \<open>waitFor_loop\<close> is the \<open>for\<close> loop of \<open>waitFor\<close>, over the mapped \<open>ids\<close>.
\<close>

function (sequential) run :: "nat \<Rightarrow> 'p prog \<Rightarrow> 'p dispatcher \<Rightarrow> 'p outcome"
  and invokePayloadable :: "nat \<Rightarrow> site \<Rightarrow> string \<Rightarrow> 'p dispatcher \<Rightarrow> 'p outcome"
  and waitFor :: "nat \<Rightarrow> arg list \<Rightarrow> 'p dispatcher \<Rightarrow> 'p outcome"
  and waitFor_loop :: "nat \<Rightarrow> string option list \<Rightarrow> 'p dispatcher \<Rightarrow> 'p outcome"
  and dispatch :: "nat \<Rightarrow> 'p \<Rightarrow> 'p dispatcher \<Rightarrow> 'p outcome"
  and dispatch_loop :: "nat \<Rightarrow> string list \<Rightarrow> 'p dispatcher \<Rightarrow> 'p outcome"
where
  "run 0 c st = None"
| "run (Suc n) Return st = Some (Inr (), st)"
| "run (Suc n) (Throw e) st = Some (Inl e, st)"
| "run (Suc n) (Act l k) st = run n k (st\<lparr> trace := trace st @ [Did l] \<rparr>)"
| "run (Suc n) (WaitFor args k) st =
     (case waitFor n args st of None \<Rightarrow> None | Some (r, st') \<Rightarrow> run n (k r) st')"
| "run (Suc n) (Dispatch payload k) st =
     (case dispatch n payload st of None \<Rightarrow> None | Some (r, st') \<Rightarrow> run n (k r) st')"
| "run (Suc n) (Register payloadable k) st =
     (case register payloadable st of (tok, st') \<Rightarrow> run n (k tok) st')"
| "run (Suc n) (Unregister tok k) st =
     (case unregister tok st of (r, st') \<Rightarrow> run n (k r) st')"
| "run (Suc n) (IsDispatching k) st = run n (k (isDispatching st)) st"
| "invokePayloadable 0 s tok st = None"
| "invokePayloadable (Suc n) s tok st =
     (let st1 = st\<lparr> isPending := (isPending st)(tok \<mapsto> True) \<rparr> in
      case map_of (payloadables st1) tok of
        None \<Rightarrow> Some (Inl TypeError, st1)
      | Some payloadable \<Rightarrow>
          (case run n (payloadable (pendingPayload st1)) (st1\<lparr> trace := trace st1 @ [Enter s tok] \<rparr>) of
             None \<Rightarrow> None
           | Some (Inl e, st2) \<Rightarrow> Some (Inl e, st2)
           | Some (Inr _, st2) \<Rightarrow>
               Some (Inr (), st2\<lparr> isHandled := (isHandled st2)(tok \<mapsto> True),
                                  trace := trace st2 @ [Leave tok] \<rparr>)))"
| "waitFor n args st =
     (case dispatchTokens args of
        Inl e \<Rightarrow> Some (Inl e, st)
      | Inr ids \<Rightarrow>
          if \<not> dispatching st then Some (Inl NotDispatching, st)
          else waitFor_loop n ids st)"
| "waitFor_loop n [] st = Some (Inr (), st)"
| "waitFor_loop 0 (i # ids) st = None"
| "waitFor_loop (Suc n) (i # ids) st =
     (let tok = key i in
      if truthy (isPending st) tok then
        (if \<not> truthy (isHandled st) tok then Some (Inl (CircularDependency tok), st)
         else waitFor_loop n ids st)
      else if \<not> has_payloadable st tok then Some (Inl (UnknownSubscriber tok), st)
      else (case invokePayloadable n FromWaitFor tok st of
              None \<Rightarrow> None
            | Some (Inl e, st') \<Rightarrow> Some (Inl e, st')
            | Some (Inr _, st') \<Rightarrow> waitFor_loop n ids st'))"
| "dispatch n payload st =
     (if dispatching st then Some (Inl ReentrantDispatch, st)
      else (case dispatch_loop n (map fst (payloadables st)) (startDispatching payload st) of
              None \<Rightarrow> None
            | Some (r, st') \<Rightarrow> Some (r, stopDispatching st')))"
| "dispatch_loop n [] st = Some (Inr (), st)"
| "dispatch_loop 0 (tok # ids) st = None"
| "dispatch_loop (Suc n) (tok # ids) st =
     (if map_of (payloadables st) tok = None then dispatch_loop n ids st
      else if truthy (isPending st) tok then dispatch_loop n ids st
      else (case invokePayloadable n FromDispatch tok st of
              None \<Rightarrow> None
            | Some (Inl e, st') \<Rightarrow> Some (Inl e, st')
            | Some (Inr _, st') \<Rightarrow> dispatch_loop n ids st'))"
  by pat_completeness auto

termination
  by (relation "measure (case_sum
        (case_sum (\<lambda>(n, _). 2 * n) (case_sum (\<lambda>(n, _). 2 * n) (\<lambda>(n, _). 2 * n + 1)))
        (case_sum (\<lambda>(n, _). 2 * n) (case_sum (\<lambda>(n, _). 2 * n + 1) (\<lambda>(n, _). 2 * n))))")
     auto

section \<open>Observing a round\<close>

text \<open>The events a state's trace gained since an earlier state.\<close>

definition new_events :: "'p dispatcher \<Rightarrow> 'p dispatcher \<Rightarrow> event list" where
  "new_events st st' = drop (length (trace st)) (trace st')"

text \<open>
  The tokens whose callbacks were called, in call order; those called from the loop of
  \<open>dispatch\<close>; those whose callbacks returned; and the callbacks' own actions.
\<close>

fun entered :: "event list \<Rightarrow> string list" where
  "entered [] = []"
| "entered (Enter s tok # evs) = tok # entered evs"
| "entered (e # evs) = entered evs"

fun loop_entered :: "event list \<Rightarrow> string list" where
  "loop_entered [] = []"
| "loop_entered (Enter FromDispatch tok # evs) = tok # loop_entered evs"
| "loop_entered (e # evs) = loop_entered evs"

fun left :: "event list \<Rightarrow> string list" where
  "left [] = []"
| "left (Leave tok # evs) = tok # left evs"
| "left (e # evs) = left evs"

fun acts :: "event list \<Rightarrow> string list" where
  "acts [] = []"
| "acts (Did l # evs) = l # acts evs"
| "acts (e # evs) = acts evs"

text \<open>
  The single steps by which a round changes the engine state, whoever takes them: an
  action of a callback, a \<open>register\<close>, an \<open>unregister\<close>, lines 132-134 of
  \<open>_invokePayloadable\<close> (the token becomes pending and its callback is entered; the
  caller has found the token not pending), line 135 (the callback has returned and the token
  becomes handled), and line 132 alone, for a key that only \<open>Object.prototype\<close> has,
  where line 134 raises. \<open>K\<close> holds the tokens the loop of \<open>dispatch\<close> may enter.
\<close>

inductive atomic :: "string set \<Rightarrow> 'p dispatcher \<Rightarrow> 'p dispatcher \<Rightarrow> bool"
  for K :: "string set" where
  act: "atomic K st (st\<lparr> trace := trace st @ [Did l] \<rparr>)"
| reg: "atomic K st (snd (register payloadable st))"
| unreg: "atomic K st (snd (unregister tok st))"
| enter: "\<not> truthy (isPending st) tok \<Longrightarrow> map_of (payloadables st) tok = Some payloadable \<Longrightarrow>
          (s = FromDispatch \<longrightarrow> tok \<in> K) \<Longrightarrow>
          atomic K st (st\<lparr> isPending := (isPending st)(tok \<mapsto> True),
                            trace := trace st @ [Enter s tok] \<rparr>)"
| leave: "isPending st tok = Some True \<Longrightarrow>
          atomic K st (st\<lparr> isHandled := (isHandled st)(tok \<mapsto> True),
                            trace := trace st @ [Leave tok] \<rparr>)"
| mark: "\<not> truthy (isPending st) tok \<Longrightarrow> tok \<in> set Object_prototype \<Longrightarrow>
         atomic K st (st\<lparr> isPending := (isPending st)(tok \<mapsto> True) \<rparr>)"

text \<open>
  The strings \<open>register\<close> issues: \<open>ID_\<close> followed by decimal digits. In a well-formed
  state the own keys of the three tables are such strings, and the registry has no key
  twice; every state reached from \<open>new_dispatcher\<close> is well-formed.
\<close>

definition is_token :: "string \<Rightarrow> bool" where
  "is_token t = (take 3 t = Prefix \<and> drop 3 t \<noteq> [] \<and> set (drop 3 t) \<subseteq> set Digits)"

definition well_formed :: "'p dispatcher \<Rightarrow> bool" where
  "well_formed st = (set (map fst (payloadables st)) \<subseteq> Collect is_token
          \<and> distinct (map fst (payloadables st))
          \<and> dom (isPending st) \<subseteq> Collect is_token
          \<and> dom (isHandled st) \<subseteq> Collect is_token)"

text \<open>Sequences of such steps; and the tokens the loop of \<open>dispatch\<close> may enter from a call site.\<close>

abbreviation path :: "string set \<Rightarrow> 'p dispatcher \<Rightarrow> 'p dispatcher \<Rightarrow> bool" where
  "path K \<equiv> (atomic K)\<^sup>*\<^sup>*"

definition site_keys :: "site \<Rightarrow> string \<Rightarrow> string set" where
  "site_keys s tok = (case s of FromDispatch \<Rightarrow> {tok} | FromWaitFor \<Rightarrow> {})"

text \<open>
  What is shown of the engine by induction on the fuel: whatever runs during a round
  (a callback, an invocation, either loop) moves the state along such a sequence of steps.
\<close>

definition sound :: "nat \<Rightarrow> 'p itself \<Rightarrow> bool" where
  "sound n T \<longleftrightarrow>
     (\<forall>c (st :: 'p dispatcher) r st'.
        dispatching st \<longrightarrow> run n c st = Some (r, st') \<longrightarrow> path {} st st')
   \<and> (\<forall>s tok (st :: 'p dispatcher) r st'.
        dispatching st \<longrightarrow> \<not> truthy (isPending st) tok \<longrightarrow> has_payloadable st tok \<longrightarrow>
        invokePayloadable n s tok st = Some (r, st') \<longrightarrow> path (site_keys s tok) st st')
   \<and> (\<forall>ids (st :: 'p dispatcher) r st'.
        dispatching st \<longrightarrow> waitFor_loop n ids st = Some (r, st') \<longrightarrow> path {} st st')
   \<and> (\<forall>ks (st :: 'p dispatcher) r st'.
        dispatching st \<longrightarrow> dispatch_loop n ks st = Some (r, st') \<longrightarrow> path (set ks) st st')"

text \<open>What is shown of the fuel: a result, once reached, is the result with any more fuel.\<close>

definition fuel_mono :: "nat \<Rightarrow> 'p itself \<Rightarrow> bool" where
  "fuel_mono n T \<longleftrightarrow>
     (\<forall>c (st :: 'p dispatcher) y. run n c st = Some y \<longrightarrow> run (Suc n) c st = Some y)
   \<and> (\<forall>s tok (st :: 'p dispatcher) y.
        invokePayloadable n s tok st = Some y \<longrightarrow> invokePayloadable (Suc n) s tok st = Some y)
   \<and> (\<forall>ids (st :: 'p dispatcher) y.
        waitFor_loop n ids st = Some y \<longrightarrow> waitFor_loop (Suc n) ids st = Some y)
   \<and> (\<forall>ks (st :: 'p dispatcher) y.
        dispatch_loop n ks st = Some y \<longrightarrow> dispatch_loop (Suc n) ks st = Some y)"

text \<open>A token whose handled flag is \<open>true\<close> has its pending flag \<open>true\<close>.\<close>

definition flags_ok :: "'p dispatcher \<Rightarrow> bool" where
  "flags_ok st = (\<forall>t. isHandled st t = Some True \<longrightarrow> isPending st t = Some True)"

text \<open>
  What a sequence of steps from \<open>a\<close> to \<open>b\<close> has done: no callback was entered twice,
  each entered token was not pending in \<open>a\<close> and is pending in \<open>b\<close>, the loop of
  \<open>dispatch\<close> entered tokens of \<open>K\<close> only, and each token whose callback returned is
  pending and handled in \<open>b\<close>.
\<close>

definition seg_ok :: "string set \<Rightarrow> 'p dispatcher \<Rightarrow> 'p dispatcher \<Rightarrow> bool" where
  "seg_ok K a b \<longleftrightarrow>
     distinct (entered (new_events a b))
   \<and> (\<forall>t \<in> set (entered (new_events a b)). \<not> truthy (isPending a) t \<and> isPending b t = Some True)
   \<and> set (loop_entered (new_events a b)) \<subseteq> K
   \<and> (\<forall>t \<in> set (left (new_events a b)). isPending b t = Some True \<and> isHandled b t = Some True)"

section \<open>Callers of register and unregister\<close>

text \<open>
  A caller's sequence of \<open>register\<close> and \<open>unregister\<close> calls on one engine (a failing
  \<open>unregister\<close> raises to the caller and leaves the engine as it was; the caller goes
  on), the tokens the \<open>register\<close> calls return, in order, and the number of those calls.
\<close>

datatype 'p op = Reg "'p option \<Rightarrow> 'p prog" | Unreg string

fun issue :: "'p op list \<Rightarrow> 'p dispatcher \<Rightarrow> string list" where
  "issue [] st = []"
| "issue (Reg payloadable # ops) st =
     fst (register payloadable st) # issue ops (snd (register payloadable st))"
| "issue (Unreg tok # ops) st = issue ops (snd (unregister tok st))"

fun registrations :: "'p op list \<Rightarrow> nat" where
  "registrations [] = 0"
| "registrations (Reg payloadable # ops) = Suc (registrations ops)"
| "registrations (Unreg tok # ops) = registrations ops"

section \<open>Subscribers used in the examples\<close>

text \<open>A subscriber whose callback returns at once.\<close>

definition noop :: "'p option \<Rightarrow> 'p prog" where
  "noop p = Return"

text \<open>
  A subscriber that records the payload it is called with, and one that registers such a
  subscriber from inside its callback and then waits for it.
\<close>

definition echo :: "string option \<Rightarrow> string prog" where
  "echo p = Act (case p of None \<Rightarrow> ''undefined'' | Some x \<Rightarrow> x) Return"

definition registrar :: "string option \<Rightarrow> string prog" where
  "registrar p = Register echo (\<lambda>tok. WaitFor [Subscriber tok] (uncaught Return))"

text \<open>A subscriber whose callback raises an error of its own.\<close>

definition thrower :: "string option \<Rightarrow> string prog" where
  "thrower p = Throw (Thrown ''boom'')"

text \<open>
  A subscriber that acts and returns, and one that first waits for the subscriber with the
  given token.
\<close>

definition just :: "string \<Rightarrow> 'p option \<Rightarrow> 'p prog" where
  "just l p = Act l Return"

definition after :: "string \<Rightarrow> string \<Rightarrow> 'p option \<Rightarrow> 'p prog" where
  "after tok l p = WaitFor [Subscriber tok] (uncaught (Act l Return))"

text \<open>
  The engines of the examples: \<open>ID_1\<close> waits for \<open>ID_2\<close>, before a round, at the start of a
  round, and when the loop of \<open>dispatch\<close> has just entered the callback of \<open>ID_1\<close>;
\<close>

definition two_subscribers :: "nat dispatcher" where
  "two_subscribers = snd (register (just ''b'') (snd (register (after ''ID_2'' ''a'') new_dispatcher)))"

definition round_begun :: "nat dispatcher" where
  "round_begun = startDispatching 0 two_subscribers"

definition first_entered :: "nat dispatcher" where
  "first_entered = round_begun\<lparr> isPending := (isPending round_begun)(''ID_1'' \<mapsto> True),
                                 trace := [Enter FromDispatch ''ID_1''] \<rparr>"

text \<open>
  \<open>ID_1\<close> waits for \<open>ID_2\<close>, which waits for \<open>ID_3\<close>, alone and with a fourth subscriber
  that waits for nothing, and inside the callback of \<open>ID_1\<close>;
\<close>

definition chained :: "nat dispatcher" where
  "chained = snd (register (just ''c'') (snd (register (after ''ID_3'' ''b'')
             (snd (register (after ''ID_2'' ''a'') new_dispatcher)))))"

definition chained_and_one :: "nat dispatcher" where
  "chained_and_one = snd (register (just ''d'') chained)"

definition chained_entered :: "nat dispatcher" where
  "chained_entered = (startDispatching 0 chained)\<lparr>
     isPending := (isPending (startDispatching 0 chained))(''ID_1'' \<mapsto> True),
     trace := [Enter FromDispatch ''ID_1''] \<rparr>"

text \<open>
  two subscribers that wait for each other when the payload is \<open>0\<close> and for nothing
  otherwise.
\<close>

definition mutual :: "nat dispatcher" where
  "mutual = snd (register (\<lambda>p. if p = Some 0 then after ''ID_1'' ''y'' p else just ''y'' p)
              (snd (register (\<lambda>p. if p = Some 0 then after ''ID_2'' ''x'' p else just ''x'' p)
                 new_dispatcher)))"

text \<open>
  A subscriber that waits for another inside \<open>try ... catch\<close> and goes on whatever
  \<open>waitFor\<close> returned or raised; an engine in which \<open>ID_1\<close> waits in this way for
  \<open>ID_2\<close>, whose callback raises, with a third subscriber after them; and one in which
  \<open>ID_1\<close> waits for \<open>ID_2\<close> without catching while \<open>ID_2\<close> waits for \<open>ID_1\<close> and
  catches.
\<close>

definition catching :: "string \<Rightarrow> string \<Rightarrow> 'p option \<Rightarrow> 'p prog" where
  "catching tok l p = WaitFor [Subscriber tok] (\<lambda>r. Act l Return)"

definition swallowed :: "string dispatcher" where
  "swallowed = snd (register echo (snd (register thrower
                 (snd (register (catching ''ID_2'' ''a'') new_dispatcher)))))"

definition mutual_caught :: "nat dispatcher" where
  "mutual_caught = snd (register (catching ''ID_1'' ''y'') (snd (register (after ''ID_2'' ''x'')
                     new_dispatcher)))"

text \<open>
  Two subscribers whose callbacks call \<open>waitFor\<close> on each other, where the callback of
  \<open>ID_1\<close> first unregisters \<open>ID_2\<close>; and where it waits for \<open>ID_3\<close>, whose callback
  raises, before \<open>ID_2\<close>.
\<close>

definition mutual_unregistered :: "nat dispatcher" where
  "mutual_unregistered = snd (register (after ''ID_1'' ''y'')
     (snd (register (\<lambda>p. Unregister ''ID_2'' (\<lambda>r. WaitFor [Subscriber ''ID_2''] (uncaught (Act ''x'' Return))))
        new_dispatcher)))"

definition mutual_behind :: "nat dispatcher" where
  "mutual_behind = snd (register (\<lambda>p. Throw (Thrown ''boom''))
     (snd (register (after ''ID_1'' ''y'')
        (snd (register (\<lambda>p. WaitFor [Subscriber ''ID_3'', Subscriber ''ID_2''] (uncaught (Act ''x'' Return)))
           new_dispatcher)))))"

text \<open>
  A subscriber that acts and then waits for another. Two of them that wait for each other,
  registered after a subscriber that waits for nothing; two subscribers that wait for each
  other, registered after one that waits for the second of them, before a round and inside
  the callback of \<open>ID_1\<close>.
\<close>

definition acting_after :: "string \<Rightarrow> string \<Rightarrow> 'p option \<Rightarrow> 'p prog" where
  "acting_after l tok p = doing [l] (WaitFor [Subscriber tok] (uncaught Return))"

definition one_and_mutual :: "nat dispatcher" where
  "one_and_mutual = snd (register (acting_after ''y'' ''ID_2'') (snd (register (acting_after ''x'' ''ID_3'')
                      (snd (register (just ''w'') new_dispatcher)))))"

definition third_waits :: "nat dispatcher" where
  "third_waits = snd (register (after ''ID_2'' ''y'') (snd (register (after ''ID_3'' ''x'')
                   (snd (register (after ''ID_3'' ''w'') new_dispatcher)))))"

definition third_entered :: "nat dispatcher" where
  "third_entered = (startDispatching 0 third_waits)\<lparr>
     isPending := (isPending (startDispatching 0 third_waits))(''ID_1'' \<mapsto> True),
     trace := [Enter FromDispatch ''ID_1''] \<rparr>"

text \<open>The orders in which three subscribers can have been registered.\<close>

definition arrangements :: "'a \<Rightarrow> 'a \<Rightarrow> 'a \<Rightarrow> 'a list set" where
  "arrangements a b c = {[a, b, c], [a, c, b], [b, a, c], [b, c, a], [c, a, b], [c, b, a]}"

section \<open>What a round has left to run\<close>

text \<open>
  A callback is a finite tree, so whatever it does comes to an end unless the engine keeps
  calling callbacks. The immediate parts of a program are its continuations and, for a
  \<open>register\<close>, the callback it registers applied to a payload.
\<close>

inductive_set part :: "('p prog \<times> 'p prog) set" where
  part_Act: "(k, Act l k) \<in> part"
| part_WaitFor: "(k r, WaitFor args k) \<in> part"
| part_Dispatch: "(k r, Dispatch payload k) \<in> part"
| part_Register_callback: "(payloadable p, Register payloadable k) \<in> part"
| part_Register: "(k tok, Register payloadable k) \<in> part"
| part_Unregister: "(k r, Unregister tok k) \<in> part"
| part_IsDispatching: "(k b, IsDispatching k) \<in> part"

text \<open>Finite collections of programs, compared by replacing a program with parts of it.\<close>

definition below :: "('p prog multiset \<times> 'p prog multiset) set" where
  "below = mult (part\<^sup>+)"

text \<open>
  The callbacks of the registered tokens that are not pending, at the payload of the round:
  the only ones \<open>_invokePayloadable\<close> can still be called on, by the loop of
  \<open>dispatch\<close> or by \<open>waitFor\<close>.
\<close>

fun todo_of :: "(string \<rightharpoonup> bool) \<Rightarrow> 'p option \<Rightarrow> (string \<times> ('p option \<Rightarrow> 'p prog)) list \<Rightarrow> 'p prog multiset" where
  "todo_of flags p [] = {#}"
| "todo_of flags p ((tok, payloadable) # al) =
     (if truthy flags tok then todo_of flags p al
      else add_mset (payloadable p) (todo_of flags p al))"

definition todo :: "'p dispatcher \<Rightarrow> 'p prog multiset" where
  "todo st = todo_of (isPending st) (pendingPayload st) (payloadables st)"

text \<open>A round is active and the registry, a JavaScript object, has each key once.\<close>

definition in_round :: "'p dispatcher \<Rightarrow> bool" where
  "in_round st = (dispatching st \<and> distinct (map fst (payloadables st)))"

section \<open>Evaluation\<close>

text \<open>Rules that let the simplifier run the engine on concrete inputs.\<close>

named_theorems engine \<open>defining equations of the engine, for evaluation\<close>

lemma decimal_small: "n < 10 \<Longrightarrow> decimal n = [digit n]"
  by (simp add: decimal.simps)

lemma decimal_large: "10 \<le> n \<Longrightarrow> decimal n = decimal (n div 10) @ [digit (n mod 10)]"
  by (subst decimal.simps) simp

lemmas run_numeral =
  run.simps(2-9) [where n = "pred_numeral v", folded numeral_eq_Suc] for v

lemmas invokePayloadable_numeral =
  invokePayloadable.simps(2) [where n = "pred_numeral v", folded numeral_eq_Suc] for v

lemmas waitFor_loop_numeral =
  waitFor_loop.simps(3) [where n = "pred_numeral v", folded numeral_eq_Suc] for v

lemmas dispatch_loop_numeral =
  dispatch_loop.simps(3) [where n = "pred_numeral v", folded numeral_eq_Suc] for v

lemmas [engine] =
  decimal_small decimal_large digit_def Digits_def Prefix_def increment_def Object_prototype_def
  truthy_def has_payloadable_def new_dispatcher_def register_def unregister_def
  isDispatching_def startDispatching_def stopDispatching_def uncaught_def Let_def One_nat_def
  run_numeral invokePayloadable_numeral waitFor_loop_numeral dispatch_loop_numeral

lemmas [engine] =
  catching_def swallowed_def mutual_caught_def mutual_unregistered_def mutual_behind_def
  acting_after_def one_and_mutual_def third_waits_def third_entered_def

section \<open>The steps of a round\<close>

subsection \<open>What every step preserves\<close>

lemma atomic_mono: "atomic K a b \<Longrightarrow> K \<subseteq> K' \<Longrightarrow> atomic K' a b"
  by (induction rule: atomic.induct) (auto intro: atomic.intros)

lemma path_mono: "(atomic K)\<^sup>*\<^sup>* a b \<Longrightarrow> K \<subseteq> K' \<Longrightarrow> (atomic K')\<^sup>*\<^sup>* a b"
  by (induction rule: rtranclp_induct) (auto intro: atomic_mono rtranclp.rtrancl_into_rtrancl)

lemma atomic_dispatching: "atomic K a b \<Longrightarrow> dispatching b = dispatching a"
  by (induction rule: atomic.induct) (auto simp: register_def unregister_def Let_def)

lemma path_dispatching: "(atomic K)\<^sup>*\<^sup>* a b \<Longrightarrow> dispatching b = dispatching a"
  by (induction rule: rtranclp_induct) (auto simp: atomic_dispatching)

lemma atomic_payload: "atomic K a b \<Longrightarrow> pendingPayload b = pendingPayload a"
  by (induction rule: atomic.induct) (auto simp: register_def unregister_def Let_def)

lemma path_payload: "(atomic K)\<^sup>*\<^sup>* a b \<Longrightarrow> pendingPayload b = pendingPayload a"
  by (induction rule: rtranclp_induct) (auto simp: atomic_payload)

lemma atomic_pending: "atomic K a b \<Longrightarrow> isPending a t = Some True \<Longrightarrow> isPending b t = Some True"
  by (induction rule: atomic.induct) (auto simp: register_def unregister_def Let_def)

lemma path_pending: "(atomic K)\<^sup>*\<^sup>* a b \<Longrightarrow> isPending a t = Some True \<Longrightarrow> isPending b t = Some True"
  by (induction rule: rtranclp_induct) (auto simp: atomic_pending)

lemma atomic_handled: "atomic K a b \<Longrightarrow> isHandled a t = Some True \<Longrightarrow> isHandled b t = Some True"
  by (induction rule: atomic.induct) (auto simp: register_def unregister_def Let_def)

lemma path_handled: "path K a b \<Longrightarrow> isHandled a t = Some True \<Longrightarrow> isHandled b t = Some True"
  by (induction rule: rtranclp_induct) (auto simp: atomic_handled)

lemma atomic_pending_cases: "atomic K a b \<Longrightarrow> isPending b t = isPending a t \<or> isPending b t = Some True"
  by (induction rule: atomic.induct) (auto simp: register_def unregister_def Let_def)

lemma atomic_handled_cases: "atomic K a b \<Longrightarrow> isHandled b t = isHandled a t \<or> isHandled b t = Some True"
  by (induction rule: atomic.induct) (auto simp: register_def unregister_def Let_def)

lemma atomic_truthy_pending: "atomic K a b \<Longrightarrow> truthy (isPending a) t \<Longrightarrow> truthy (isPending b) t"
  using atomic_pending_cases[of K a b t] by (auto simp: truthy_def)

lemma atomic_truthy_handled: "atomic K a b \<Longrightarrow> truthy (isHandled a) t \<Longrightarrow> truthy (isHandled b) t"
  using atomic_handled_cases[of K a b t] by (auto simp: truthy_def)

lemma path_truthy_pending: "path K a b \<Longrightarrow> truthy (isPending a) t \<Longrightarrow> truthy (isPending b) t"
  by (induction rule: rtranclp_induct) (auto simp: atomic_truthy_pending)

lemma path_truthy_handled: "path K a b \<Longrightarrow> truthy (isHandled a) t \<Longrightarrow> truthy (isHandled b) t"
  by (induction rule: rtranclp_induct) (auto simp: atomic_truthy_handled)

lemma atomic_lastID: "atomic K a b \<Longrightarrow> lastID a \<le> lastID b"
  by (induction rule: atomic.induct) (auto simp: register_def unregister_def Let_def increment_def)

lemma path_lastID: "path K a b \<Longrightarrow> lastID a \<le> lastID b"
  by (induction rule: rtranclp_induct) (auto dest: atomic_lastID)

lemma atomic_flags_ok: "atomic K a b \<Longrightarrow> flags_ok a \<Longrightarrow> flags_ok b"
  by (induction rule: atomic.induct) (auto simp: register_def unregister_def Let_def flags_ok_def)

lemma path_flags_ok: "path K a b \<Longrightarrow> flags_ok a \<Longrightarrow> flags_ok b"
  by (induction rule: rtranclp_induct) (auto dest: atomic_flags_ok)

subsection \<open>The engine moves by steps\<close>
lemma sound_0: "sound 0 T"
  unfolding sound_def
  apply (intro conjI allI impI)
     apply simp
    apply simp
  subgoal for ids st r st' by (cases ids) auto
  subgoal for ks st r st' by (cases ks) auto
  done

lemma path_step: "path K a b \<Longrightarrow> atomic K b c \<Longrightarrow> path K a c"
  by (rule rtranclp.rtrancl_into_rtrancl)

lemma step_path: "atomic K a b \<Longrightarrow> path K b c \<Longrightarrow> path K a c"
  by (rule converse_rtranclp_into_rtranclp)

lemma sound_run:
  assumes IH: "sound n TYPE('p)"
  assumes d: "dispatching (st :: 'p dispatcher)" and r: "run (Suc n) c st = Some (r, st')"
  shows "path {} st st'"
proof (cases c)
  case Return
  then show ?thesis using r by simp
next
  case (Throw e)
  then show ?thesis using r by simp
next
  case (Act l k)
  have a: "atomic {} st (st\<lparr> trace := trace st @ [Did l] \<rparr>)" by (rule atomic.act)
  have "path {} (st\<lparr> trace := trace st @ [Did l] \<rparr>) st'"
    using IH r d Act unfolding sound_def by auto
  with a show ?thesis by (rule step_path)
next
  case (WaitFor args k)
  show ?thesis
  proof (cases "dispatchTokens args")
    case (Inl e)
    then show ?thesis using IH r d WaitFor unfolding sound_def by auto
  next
    case (Inr ids)
    then obtain r1 st1 where w: "waitFor_loop n ids st = Some (r1, st1)" and k: "run n (k r1) st1 = Some (r, st')"
      using r d WaitFor by (auto split: option.splits)
    have p1: "path {} st st1" using IH w d unfolding sound_def by blast
    then have "dispatching st1" using d by (simp add: path_dispatching)
    then have "path {} st1 st'" using IH k unfolding sound_def by blast
    with p1 show ?thesis by simp
  qed
next
  case (Dispatch payload k)
  then show ?thesis using IH r d unfolding sound_def by auto
next
  case (Register payloadable k)
  have a: "atomic {} st (snd (register payloadable st))" by (rule atomic.reg)
  then have "dispatching (snd (register payloadable st))" using d by (simp add: atomic_dispatching)
  then have "path {} (snd (register payloadable st)) st'"
    using IH r Register unfolding sound_def by (auto split: prod.splits)
  with a show ?thesis by (rule step_path)
next
  case (Unregister tok k)
  have a: "atomic {} st (snd (unregister tok st))" by (rule atomic.unreg)
  then have "dispatching (snd (unregister tok st))" using d by (simp add: atomic_dispatching)
  then have "path {} (snd (unregister tok st)) st'"
    using IH r Unregister unfolding sound_def by (auto split: prod.splits)
  with a show ?thesis by (rule step_path)
next
  case (IsDispatching k)
  then show ?thesis using IH r d unfolding sound_def by auto
qed

lemma sound_runD:
  "sound n TYPE('p) \<Longrightarrow> dispatching (st :: 'p dispatcher) \<Longrightarrow> run n c st = Some (r, st') \<Longrightarrow> path {} st st'"
  unfolding sound_def by blast

lemma sound_invokeD:
  "sound n TYPE('p) \<Longrightarrow> dispatching (st :: 'p dispatcher) \<Longrightarrow> \<not> truthy (isPending st) tok \<Longrightarrow>
   has_payloadable st tok \<Longrightarrow> invokePayloadable n s tok st = Some (r, st') \<Longrightarrow>
   path (site_keys s tok) st st'"
  unfolding sound_def by blast

lemma sound_waitFor_loopD:
  "sound n TYPE('p) \<Longrightarrow> dispatching (st :: 'p dispatcher) \<Longrightarrow> waitFor_loop n ids st = Some (r, st') \<Longrightarrow> path {} st st'"
  unfolding sound_def by blast

lemma sound_dispatch_loopD:
  "sound n TYPE('p) \<Longrightarrow> dispatching (st :: 'p dispatcher) \<Longrightarrow> dispatch_loop n ks st = Some (r, st') \<Longrightarrow> path (set ks) st st'"
  unfolding sound_def by blast

lemma sound_invoke:
  assumes IH: "sound n TYPE('p)"
  assumes d: "dispatching (st :: 'p dispatcher)" and np: "\<not> truthy (isPending st) tok"
    and h: "has_payloadable st tok"
    and r: "invokePayloadable (Suc n) s tok st = Some (r, st')"
  shows "path (site_keys s tok) st st'"
proof (cases "map_of (payloadables st) tok")
  case None
  then have "tok \<in> set Object_prototype" using h by (simp add: has_payloadable_def)
  with np have "atomic (site_keys s tok) st (st\<lparr> isPending := (isPending st)(tok \<mapsto> True) \<rparr>)"
    by (rule atomic.mark)
  moreover have "st' = st\<lparr> isPending := (isPending st)(tok \<mapsto> True) \<rparr>"
    using r None by (simp add: Let_def)
  ultimately show ?thesis by auto
next
  case (Some payloadable)
  let ?st1 = "st\<lparr> isPending := (isPending st)(tok \<mapsto> True), trace := trace st @ [Enter s tok] \<rparr>"
  have a: "atomic (site_keys s tok) st ?st1"
    using np Some by (rule atomic.enter) (simp add: site_keys_def)
  obtain r2 st2 where run: "run n (payloadable (pendingPayload st)) ?st1 = Some (r2, st2)"
    using r Some by (auto simp: Let_def split: option.splits)
  have "dispatching ?st1" using d by simp
  then have "path {} ?st1 st2" using run by (rule sound_runD[OF IH])
  then have p2: "path (site_keys s tok) ?st1 st2" by (rule path_mono) simp
  show ?thesis
  proof (cases r2)
    case (Inl e)
    then have "st' = st2" using r Some run by (simp add: Let_def)
    with a p2 show ?thesis by (auto intro: step_path)
  next
    case (Inr u)
    then have st': "st' = st2\<lparr> isHandled := (isHandled st2)(tok \<mapsto> True), trace := trace st2 @ [Leave tok] \<rparr>"
      using r Some run by (simp add: Let_def)
    have "isPending ?st1 tok = Some True" by simp
    then have "isPending st2 tok = Some True" using p2 by (rule path_pending[rotated])
    then have "atomic (site_keys s tok) st2 st'" unfolding st' by (rule atomic.leave)
    with p2 have "path (site_keys s tok) ?st1 st'" by (rule path_step)
    with a show ?thesis by (rule step_path)
  qed
qed

lemma sound_waitFor_loop:
  assumes IH: "sound n TYPE('p)"
  assumes d: "dispatching (st :: 'p dispatcher)"
    and r: "waitFor_loop (Suc n) ids st = Some (r, st')"
  shows "path {} st st'"
proof (cases ids)
  case Nil
  then show ?thesis using r by simp
next
  case (Cons i ids')
  show ?thesis
  proof (cases "truthy (isPending st) (key i)")
    case True
    then have "waitFor_loop n ids' st = Some (r, st') \<or> st' = st"
      using r Cons by (auto simp: Let_def split: if_splits)
    then show ?thesis using sound_waitFor_loopD[OF IH d] by auto
  next
    case np: False
    show ?thesis
    proof (cases "has_payloadable st (key i)")
      case False
      then show ?thesis using r Cons np by (simp add: Let_def)
    next
      case True
      then obtain r1 st1 where inv: "invokePayloadable n FromWaitFor (key i) st = Some (r1, st1)"
        using r Cons np by (auto simp: Let_def split: option.splits)
      have p1: "path {} st st1" using sound_invokeD[OF IH d np True inv] by (simp add: site_keys_def)
      show ?thesis
      proof (cases r1)
        case (Inl e)
        then show ?thesis using r Cons np True inv p1 by (simp add: Let_def)
      next
        case (Inr u)
        then have rest: "waitFor_loop n ids' st1 = Some (r, st')"
          using r Cons np True inv by (simp add: Let_def)
        have "dispatching st1" using p1 d by (simp add: path_dispatching)
        then have "path {} st1 st'" using rest by (rule sound_waitFor_loopD[OF IH])
        with p1 show ?thesis by simp
      qed
    qed
  qed
qed

lemma sound_dispatch_loop:
  assumes IH: "sound n TYPE('p)"
  assumes d: "dispatching (st :: 'p dispatcher)"
    and r: "dispatch_loop (Suc n) ks st = Some (r, st')"
  shows "path (set ks) st st'"
proof (cases ks)
  case Nil
  then show ?thesis using r by simp
next
  case (Cons k ks')
  have tail: "\<And>s. dispatching s \<Longrightarrow> dispatch_loop n ks' s = Some (r, st') \<Longrightarrow> path (set ks) s st'"
  proof -
    fix s :: "'p dispatcher" assume "dispatching s" "dispatch_loop n ks' s = Some (r, st')"
    then have "path (set ks') s st'" by (rule sound_dispatch_loopD[OF IH])
    then show "path (set ks) s st'" by (rule path_mono) (auto simp: Cons)
  qed
  show ?thesis
  proof (cases "map_of (payloadables st) k = None \<or> truthy (isPending st) k")
    case True
    then have "dispatch_loop n ks' st = Some (r, st')" using r Cons by (auto split: if_splits)
    then show ?thesis using tail d by blast
  next
    case False
    then have np: "\<not> truthy (isPending st) k" and own: "map_of (payloadables st) k \<noteq> None" by auto
    then have h: "has_payloadable st k" by (auto simp: has_payloadable_def)
    obtain r1 st1 where inv: "invokePayloadable n FromDispatch k st = Some (r1, st1)"
      using r Cons np own by (auto split: option.splits)
    have "path (site_keys FromDispatch k) st st1" using IH d np h inv by (rule sound_invokeD)
    then have p1: "path (set ks) st st1" by (rule path_mono) (simp add: site_keys_def Cons)
    show ?thesis
    proof (cases r1)
      case (Inl e)
      then show ?thesis using r Cons np own inv p1 by simp
    next
      case (Inr u)
      then have rest: "dispatch_loop n ks' st1 = Some (r, st')"
        using r Cons np own inv by simp
      have "dispatching st1" using p1 d by (simp add: path_dispatching)
      then have "path (set ks) st1 st'" using rest by (rule tail)
      with p1 show ?thesis by simp
    qed
  qed
qed

lemma sound_all: "sound n TYPE('p)"
proof (induction n)
  case 0
  show ?case by (rule sound_0)
next
  case (Suc n)
  show ?case
    unfolding sound_def
    using sound_run[OF Suc] sound_invoke[OF Suc] sound_waitFor_loop[OF Suc] sound_dispatch_loop[OF Suc]
    by blast
qed

subsection \<open>Traces along a sequence of steps\<close>

lemma entered_append [simp]: "entered (xs @ ys) = entered xs @ entered ys"
  by (induction xs rule: entered.induct) auto

lemma loop_entered_append [simp]: "loop_entered (xs @ ys) = loop_entered xs @ loop_entered ys"
  by (induction xs rule: loop_entered.induct) auto

lemma left_append [simp]: "left (xs @ ys) = left xs @ left ys"
  by (induction xs rule: left.induct) auto

lemma acts_append [simp]: "acts (xs @ ys) = acts xs @ acts ys"
  by (induction xs rule: acts.induct) auto

lemma atomic_trace:
  "atomic K a b \<Longrightarrow> \<exists>evs. trace b = trace a @ evs \<and> length evs \<le> 1"
  by (induction rule: atomic.induct) (auto simp: register_def unregister_def Let_def)

lemma path_trace: "path K a b \<Longrightarrow> trace b = trace a @ new_events a b"
proof (induction rule: rtranclp_induct)
  case base
  show ?case by (simp add: new_events_def)
next
  case (step b c)
  from atomic_trace[OF step.hyps(2)] obtain evs where "trace c = trace b @ evs" by blast
  with step.IH have "trace c = trace a @ (new_events a b @ evs)" by simp
  then show ?case unfolding new_events_def by (metis append_eq_conv_conj)
qed

lemma new_events_trans:
  "trace b = trace a @ new_events a b \<Longrightarrow> trace c = trace b @ new_events b c \<Longrightarrow>
   new_events a c = new_events a b @ new_events b c"
  unfolding new_events_def by (metis append.assoc append_eq_conv_conj)

lemma new_events_path:
  "path K a b \<Longrightarrow> path K' b c \<Longrightarrow> new_events a c = new_events a b @ new_events b c"
  by (rule new_events_trans) (auto dest: path_trace)

lemma new_events_refl [simp]: "new_events a a = []"
  by (simp add: new_events_def)

lemma atomic_entered:
  assumes "atomic K a b"
  shows "(new_events a b = [] \<and> entered (new_events a b) = [])
       \<or> (\<exists>l. new_events a b = [Did l])
       \<or> (\<exists>tok. new_events a b = [Leave tok] \<and> isPending a tok = Some True \<and> isHandled b tok = Some True)
       \<or> (\<exists>s tok. new_events a b = [Enter s tok] \<and> \<not> truthy (isPending a) tok \<and> isPending b tok = Some True
             \<and> map_of (payloadables a) tok \<noteq> None \<and> (s = FromDispatch \<longrightarrow> tok \<in> K))"
  using assms
  by (induction rule: atomic.induct) (auto simp: register_def unregister_def Let_def new_events_def)

lemma path_seg_ok: "path K a b \<Longrightarrow> seg_ok K a b"
proof (induction rule: rtranclp_induct)
  case base
  show ?case by (simp add: seg_ok_def)
next
  case (step b c)
  have ab: "path K a b" by fact
  have bc: "atomic K b c" by fact
  have ne: "new_events a c = new_events a b @ new_events b c"
    using ab bc by (intro new_events_path[of K a b K c]) auto
  have IH: "seg_ok K a b" by fact
  have keepP: "\<And>t. isPending b t = Some True \<Longrightarrow> isPending c t = Some True"
    using bc by (rule atomic_pending)
  have keepH: "\<And>t. isHandled b t = Some True \<Longrightarrow> isHandled c t = Some True"
    using bc by (rule atomic_handled)
  have mono: "\<And>t. truthy (isPending a) t \<Longrightarrow> truthy (isPending b) t"
    using ab by (rule path_truthy_pending)
  from atomic_entered[OF bc] show ?case
  proof (elim disjE exE conjE)
    assume "new_events b c = []" 
    then show ?thesis using IH ne keepP keepH by (auto simp: seg_ok_def)
  next
    fix l assume "new_events b c = [Did l]"
    then show ?thesis using IH ne keepP keepH by (auto simp: seg_ok_def)
  next
    fix tok assume "new_events b c = [Leave tok]" "isPending b tok = Some True" "isHandled c tok = Some True"
    then show ?thesis using IH ne keepP keepH by (auto simp: seg_ok_def)
  next
    fix s tok assume e: "new_events b c = [Enter s tok]" "\<not> truthy (isPending b) tok" "isPending c tok = Some True"
      "s = FromDispatch \<longrightarrow> tok \<in> K"
    have "tok \<notin> set (entered (new_events a b))"
      using IH e(2) by (auto simp: seg_ok_def truthy_def)
    moreover have "\<not> truthy (isPending a) tok" using mono e(2) by blast
    moreover have "set (loop_entered [Enter s tok]) \<subseteq> K" using e(4) by (cases s) auto
    ultimately show ?thesis using IH ne keepP keepH e by (auto simp: seg_ok_def)
  qed
qed

subsection \<open>A round as seen from outside\<close>

lemma trace_startDispatching [simp]: "trace (startDispatching p st) = trace st"
  by (simp add: startDispatching_def)

lemma trace_stopDispatching [simp]: "trace (stopDispatching st) = trace st"
  by (simp add: stopDispatching_def)

lemma payloadables_startDispatching [simp]: "payloadables (startDispatching p st) = payloadables st"
  by (simp add: startDispatching_def)

lemma payloadables_stopDispatching [simp]: "payloadables (stopDispatching st) = payloadables st"
  by (simp add: stopDispatching_def)

lemma dispatching_startDispatching [simp]: "dispatching (startDispatching p st)"
  by (simp add: startDispatching_def)

lemma fold_reset:
  "fold (\<lambda>tok m. m(tok \<mapsto> False)) ks m t = (if t \<in> set ks then Some False else m t)"
  by (induction ks arbitrary: m) auto

lemma isPending_startDispatching:
  "isPending (startDispatching p st) t = (if t \<in> set (map fst (payloadables st)) then Some False else isPending st t)"
  by (simp add: startDispatching_def fold_reset)

lemma isHandled_startDispatching:
  "isHandled (startDispatching p st) t = (if t \<in> set (map fst (payloadables st)) then Some False else isHandled st t)"
  by (simp add: startDispatching_def fold_reset)

lemma dispatch_round:
  assumes "\<not> dispatching st" and "dispatch n p st = Some (r, st')"
  obtains s where "dispatch_loop n (map fst (payloadables st)) (startDispatching p st) = Some (r, s)"
    and "st' = stopDispatching s"
    and "path (set (map fst (payloadables st))) (startDispatching p st) s"
    and "new_events st st' = new_events (startDispatching p st) s"
proof -
  from assms obtain s where
    l: "dispatch_loop n (map fst (payloadables st)) (startDispatching p st) = Some (r, s)"
    and s: "st' = stopDispatching s"
    by (auto split: option.splits)
  have "path (set (map fst (payloadables st))) (startDispatching p st) s"
    using sound_dispatch_loopD[OF sound_all _ l] by simp
  moreover have "new_events st st' = new_events (startDispatching p st) s"
    by (simp add: new_events_def s)
  ultimately show thesis using l s that by blast
qed

subsection \<open>Single calls\<close>

text \<open>
  The loop of \<open>dispatch\<close> over a list of keys in two parts; what a call of
  \<open>_invokePayloadable\<close> amounts to when the callback raises, and in general; and how a
  callback goes on after a \<open>waitFor\<close>.
\<close>

lemma dispatch_loop_append:
  "dispatch_loop n (pre @ rest) st =
     (case dispatch_loop n pre st of
        None \<Rightarrow> None
      | Some (Inl e, s) \<Rightarrow> Some (Inl e, s)
      | Some (Inr u, s) \<Rightarrow> dispatch_loop (n - length pre) rest s)"
proof (induction pre arbitrary: n st)
  case Nil
  show ?case by simp
next
  case (Cons k pre)
  show ?case
  proof (cases n)
    case 0
    then show ?thesis by simp
  next
    case (Suc m)
    show ?thesis
      unfolding Suc
      by (simp add: Cons.IH[of m] split: option.splits sum.splits prod.splits
          del: invokePayloadable.simps)
  qed
qed

lemma invoke_raises:
  assumes "map_of (payloadables st) tok = Some payloadable"
    and "run n (payloadable (pendingPayload st))
           (st\<lparr> isPending := (isPending st)(tok \<mapsto> True), trace := trace st @ [Enter s tok] \<rparr>)
         = Some (Inl e, s2)"
  shows "invokePayloadable (Suc n) s tok st = Some (Inl e, s2)"
  using assms by (simp add: Let_def)

lemma invoke_unfold:
  assumes "map_of (payloadables s) tok = Some payloadable"
    and "invokePayloadable (Suc n) site tok s = Some (r, s')"
  shows "\<exists>s2. run n (payloadable (pendingPayload s))
               (s\<lparr> isPending := (isPending s)(tok \<mapsto> True), trace := trace s @ [Enter site tok] \<rparr>)
             = Some (r, s2)
           \<and> (case r of
                 Inl e \<Rightarrow> s' = s2
               | Inr u \<Rightarrow> s' = s2\<lparr> isHandled := (isHandled s2)(tok \<mapsto> True),
                                    trace := trace s2 @ [Leave tok] \<rparr>)"
  using assms by (auto simp: Let_def split: option.splits sum.splits)

lemma run_WaitFor_result:
  "waitFor m args st = Some (r, s) \<Longrightarrow> run (Suc m) (WaitFor args k) st = run m (k r) s"
  by (simp del: waitFor.simps)

lemma run_Throw: "0 < m \<Longrightarrow> run m (Throw e) s = Some (Inl e, s)"
  by (cases m) simp_all

section \<open>Fuel\<close>
lemma fuel_mono_runD:
  "fuel_mono n TYPE('p) \<Longrightarrow> run n c (st :: 'p dispatcher) = Some y \<Longrightarrow> run (Suc n) c st = Some y"
  unfolding fuel_mono_def by blast

lemma fuel_mono_invokeD:
  "fuel_mono n TYPE('p) \<Longrightarrow> invokePayloadable n s tok (st :: 'p dispatcher) = Some y \<Longrightarrow>
   invokePayloadable (Suc n) s tok st = Some y"
  unfolding fuel_mono_def by blast

lemma fuel_mono_waitFor_loopD:
  "fuel_mono n TYPE('p) \<Longrightarrow> waitFor_loop n ids (st :: 'p dispatcher) = Some y \<Longrightarrow>
   waitFor_loop (Suc n) ids st = Some y"
  unfolding fuel_mono_def by blast

lemma fuel_mono_dispatch_loopD:
  "fuel_mono n TYPE('p) \<Longrightarrow> dispatch_loop n ks (st :: 'p dispatcher) = Some y \<Longrightarrow>
   dispatch_loop (Suc n) ks st = Some y"
  unfolding fuel_mono_def by blast

lemma fuel_mono_waitForD:
  "fuel_mono n TYPE('p) \<Longrightarrow> waitFor n args (st :: 'p dispatcher) = Some y \<Longrightarrow>
   waitFor (Suc n) args st = Some y"
  by (auto split: sum.splits if_splits dest: fuel_mono_waitFor_loopD)

lemma fuel_mono_dispatchD:
  "fuel_mono n TYPE('p) \<Longrightarrow> dispatch n p (st :: 'p dispatcher) = Some y \<Longrightarrow>
   dispatch (Suc n) p st = Some y"
  by (auto split: option.splits if_splits dest: fuel_mono_dispatch_loopD)

lemma fuel_mono_0: "fuel_mono 0 T"
  unfolding fuel_mono_def
  apply (intro conjI allI impI)
     apply simp
    apply simp
  subgoal for ids st y by (cases ids) auto
  subgoal for ks st y by (cases ks) auto
  done

lemma fuel_mono_run:
  assumes IH: "fuel_mono n TYPE('p)" and r: "run (Suc n) c (st :: 'p dispatcher) = Some y"
  shows "run (Suc (Suc n)) c st = Some y"
proof (cases c)
  case Return
  then show ?thesis using r by simp
next
  case (Throw e)
  then show ?thesis using r by simp
next
  case (Act l k)
  then show ?thesis using r fuel_mono_runD[OF IH] by simp
next
  case (WaitFor args k)
  then obtain r1 st1 where w: "waitFor n args st = Some (r1, st1)" and k: "run n (k r1) st1 = Some y"
    using r by (auto simp del: waitFor.simps split: option.splits)
  have "waitFor (Suc n) args st = Some (r1, st1)" using IH w by (rule fuel_mono_waitForD)
  moreover have "run (Suc n) (k r1) st1 = Some y" using IH k by (rule fuel_mono_runD)
  ultimately show ?thesis using WaitFor by (simp del: waitFor.simps run.simps(2-9)) (simp add: run.simps(5)[of "Suc n"] del: waitFor.simps run.simps)
next
  case (Dispatch payload k)
  then obtain r1 st1 where w: "dispatch n payload st = Some (r1, st1)" and k: "run n (k r1) st1 = Some y"
    using r by (auto simp del: dispatch.simps split: option.splits)
  have "dispatch (Suc n) payload st = Some (r1, st1)" using IH w by (rule fuel_mono_dispatchD)
  moreover have "run (Suc n) (k r1) st1 = Some y" using IH k by (rule fuel_mono_runD)
  ultimately show ?thesis using Dispatch by (simp add: run.simps(6)[of "Suc n"] del: dispatch.simps run.simps)
next
  case (Register payloadable k)
  then show ?thesis using r fuel_mono_runD[OF IH] by (auto split: prod.splits)
next
  case (Unregister tok k)
  then show ?thesis using r fuel_mono_runD[OF IH] by (auto split: prod.splits)
next
  case (IsDispatching k)
  then show ?thesis using r fuel_mono_runD[OF IH] by simp
qed

lemma fuel_mono_invoke:
  assumes IH: "fuel_mono n TYPE('p)"
    and r: "invokePayloadable (Suc n) s tok (st :: 'p dispatcher) = Some y"
  shows "invokePayloadable (Suc (Suc n)) s tok st = Some y"
proof (cases "map_of (payloadables st) tok")
  case None
  then show ?thesis using r by (simp add: Let_def)
next
  case (Some payloadable)
  let ?st1 = "st\<lparr> isPending := (isPending st)(tok \<mapsto> True), trace := trace st @ [Enter s tok] \<rparr>"
  obtain y2 where run: "run n (payloadable (pendingPayload st)) ?st1 = Some y2"
    using r Some by (auto simp: Let_def split: option.splits)
  have "run (Suc n) (payloadable (pendingPayload st)) ?st1 = Some y2" using IH run by (rule fuel_mono_runD)
  then show ?thesis using r Some run
    by (simp add: Let_def invokePayloadable.simps(2)[of "Suc n"] del: run.simps)
qed

lemma fuel_mono_waitFor_loop:
  assumes IH: "fuel_mono n TYPE('p)"
    and r: "waitFor_loop (Suc n) ids (st :: 'p dispatcher) = Some y"
  shows "waitFor_loop (Suc (Suc n)) ids st = Some y"
proof (cases ids)
  case Nil
  then show ?thesis using r by simp
next
  case (Cons i ids')
  show ?thesis
  proof (cases "\<not> truthy (isPending st) (key i) \<and> has_payloadable st (key i)")
    case False
    then have "(truthy (isPending st) (key i) \<and> \<not> truthy (isHandled st) (key i)
                  \<and> y = (Inl (CircularDependency (key i)), st))
             \<or> (truthy (isPending st) (key i) \<and> truthy (isHandled st) (key i)
                  \<and> waitFor_loop n ids' st = Some y)
             \<or> (\<not> truthy (isPending st) (key i) \<and> \<not> has_payloadable st (key i)
                  \<and> y = (Inl (UnknownSubscriber (key i)), st))"
      using r Cons by (auto simp: Let_def split: if_splits)
    then have "(truthy (isPending st) (key i) \<and> \<not> truthy (isHandled st) (key i)
                  \<and> y = (Inl (CircularDependency (key i)), st))
             \<or> (truthy (isPending st) (key i) \<and> truthy (isHandled st) (key i)
                  \<and> waitFor_loop (Suc n) ids' st = Some y)
             \<or> (\<not> truthy (isPending st) (key i) \<and> \<not> has_payloadable st (key i)
                  \<and> y = (Inl (UnknownSubscriber (key i)), st))"
      using fuel_mono_waitFor_loopD[OF IH] by blast
    then show ?thesis unfolding Cons
      by (subst waitFor_loop.simps(3)) (auto simp: Let_def simp del: waitFor_loop.simps invokePayloadable.simps)
  next
    case True
    then obtain r1 st1 where inv: "invokePayloadable n FromWaitFor (key i) st = Some (r1, st1)"
      using r Cons by (auto simp: Let_def split: option.splits)
    have inv': "invokePayloadable (Suc n) FromWaitFor (key i) st = Some (r1, st1)"
      using IH inv by (rule fuel_mono_invokeD)
    show ?thesis
    proof (cases r1)
      case (Inl e)
      then have "y = (Inl e, st1)" using r Cons True inv by (simp add: Let_def)
      then show ?thesis unfolding Cons using True inv' Inl
        by (subst waitFor_loop.simps(3)) (simp add: Let_def del: waitFor_loop.simps invokePayloadable.simps)
    next
      case (Inr u)
      then have "waitFor_loop n ids' st1 = Some y" using r Cons True inv by (simp add: Let_def)
      then have "waitFor_loop (Suc n) ids' st1 = Some y" using IH by (rule fuel_mono_waitFor_loopD[rotated])
      then show ?thesis unfolding Cons using True inv' Inr
        by (subst waitFor_loop.simps(3)) (simp add: Let_def del: waitFor_loop.simps invokePayloadable.simps)
    qed
  qed
qed

lemma fuel_mono_dispatch_loop:
  assumes IH: "fuel_mono n TYPE('p)"
    and r: "dispatch_loop (Suc n) ks (st :: 'p dispatcher) = Some y"
  shows "dispatch_loop (Suc (Suc n)) ks st = Some y"
proof (cases ks)
  case Nil
  then show ?thesis using r by simp
next
  case (Cons k ks')
  show ?thesis
  proof (cases "map_of (payloadables st) k = None \<or> truthy (isPending st) k")
    case True
    then have "dispatch_loop n ks' st = Some y" using r Cons by (auto split: if_splits)
    then have "dispatch_loop (Suc n) ks' st = Some y" using IH by (rule fuel_mono_dispatch_loopD[rotated])
    then show ?thesis unfolding Cons using True
      by (subst dispatch_loop.simps(3)) (auto simp del: dispatch_loop.simps invokePayloadable.simps)
  next
    case False
    then obtain r1 st1 where inv: "invokePayloadable n FromDispatch k st = Some (r1, st1)"
      using r Cons by (auto split: option.splits)
    have inv': "invokePayloadable (Suc n) FromDispatch k st = Some (r1, st1)"
      using IH inv by (rule fuel_mono_invokeD)
    show ?thesis
    proof (cases r1)
      case (Inl e)
      then have "y = (Inl e, st1)" using r Cons False inv by auto
      then show ?thesis unfolding Cons using False inv' Inl
        by (subst dispatch_loop.simps(3)) (auto simp del: dispatch_loop.simps invokePayloadable.simps)
    next
      case (Inr u)
      then have "dispatch_loop n ks' st1 = Some y" using r Cons False inv by auto
      then have "dispatch_loop (Suc n) ks' st1 = Some y" using IH by (rule fuel_mono_dispatch_loopD[rotated])
      then show ?thesis unfolding Cons using False inv' Inr
        by (subst dispatch_loop.simps(3)) (auto simp del: dispatch_loop.simps invokePayloadable.simps)
    qed
  qed
qed

lemma fuel_mono_all: "fuel_mono n TYPE('p)"
proof (induction n)
  case 0
  show ?case by (rule fuel_mono_0)
next
  case (Suc n)
  show ?case
    unfolding fuel_mono_def
    using fuel_mono_run[OF Suc] fuel_mono_invoke[OF Suc] fuel_mono_waitFor_loop[OF Suc]
      fuel_mono_dispatch_loop[OF Suc]
    by blast
qed

lemma more_fuel_dispatch: "dispatch n p st = Some y \<Longrightarrow> n \<le> m \<Longrightarrow> dispatch m p st = Some y"
proof (induction m)
  case 0
  then show ?case by (simp del: dispatch.simps)
next
  case (Suc m)
  show ?case
  proof (cases "n \<le> m")
    case True
    then have "dispatch m p st = Some y" using Suc by blast
    then show ?thesis using fuel_mono_all by (rule fuel_mono_dispatchD[rotated])
  next
    case False
    then have "n = Suc m" using Suc.prems by simp
    then show ?thesis using Suc.prems by (simp del: dispatch.simps)
  qed
qed

lemma more_fuel_waitFor: "waitFor n args st = Some y \<Longrightarrow> n \<le> m \<Longrightarrow> waitFor m args st = Some y"
proof (induction m)
  case 0
  then show ?case by (simp del: waitFor.simps)
next
  case (Suc m)
  show ?case
  proof (cases "n \<le> m")
    case True
    then have "waitFor m args st = Some y" using Suc by blast
    then show ?thesis using fuel_mono_all by (rule fuel_mono_waitForD[rotated])
  next
    case False
    then have "n = Suc m" using Suc.prems by simp
    then show ?thesis using Suc.prems by (simp del: waitFor.simps)
  qed
qed

lemma more_fuel_all:
  "n \<le> m \<Longrightarrow>
     (run n c st = Some y \<longrightarrow> run m c st = Some y)
   \<and> (invokePayloadable n s tok st = Some y \<longrightarrow> invokePayloadable m s tok st = Some y)
   \<and> (waitFor_loop n ids st = Some y \<longrightarrow> waitFor_loop m ids st = Some y)
   \<and> (dispatch_loop n ks st = Some y \<longrightarrow> dispatch_loop m ks st = Some y)"
proof (induction m)
  case 0
  then show ?case by simp
next
  case (Suc m)
  show ?case
  proof (cases "n \<le> m")
    case True
    then show ?thesis
      using Suc.IH fuel_mono_runD[OF fuel_mono_all] fuel_mono_invokeD[OF fuel_mono_all]
        fuel_mono_waitFor_loopD[OF fuel_mono_all] fuel_mono_dispatch_loopD[OF fuel_mono_all]
      by blast
  next
    case False
    then have "n = Suc m" using Suc.prems by simp
    then show ?thesis by blast
  qed
qed

lemma more_fuel_run: "run n c st = Some y \<Longrightarrow> n \<le> m \<Longrightarrow> run m c st = Some y"
  using more_fuel_all by blast

lemma more_fuel_invoke:
  "invokePayloadable n s tok st = Some y \<Longrightarrow> n \<le> m \<Longrightarrow> invokePayloadable m s tok st = Some y"
  using more_fuel_all by blast

lemma more_fuel_waitFor_loop:
  "waitFor_loop n ids st = Some y \<Longrightarrow> n \<le> m \<Longrightarrow> waitFor_loop m ids st = Some y"
  using more_fuel_all by blast

lemma more_fuel_dispatch_loop:
  "dispatch_loop n ks st = Some y \<Longrightarrow> n \<le> m \<Longrightarrow> dispatch_loop m ks st = Some y"
  using more_fuel_all by blast

section \<open>Every round ends\<close>

text \<open>
  The fuel is a device of the model and not a bound of the engine: for every state whose
  registry has each key once and for every payload, some amount of fuel lets \<open>dispatch\<close>
  return or raise. Calling a callback takes it out of the collection of those that can
  still be called and puts its body in its place; running the body replaces it by parts of
  itself and, when it registers a subscriber, by that subscriber's callback, which is a
  part of it as well.
\<close>

subsection \<open>The order on collections of programs\<close>

lemma wf_part: "wf (part :: ('p prog \<times> 'p prog) set)"
proof (rule wfUNIVI)
  fix P :: "'p prog \<Rightarrow> bool" and x
  assume step: "\<forall>x. (\<forall>y. (y, x) \<in> part \<longrightarrow> P y) \<longrightarrow> P x"
  show "P x"
  proof (induction x)
    case Return
    show ?case by (rule step[rule_format]) (auto elim: part.cases)
  next
    case (Throw e)
    show ?case by (rule step[rule_format]) (auto elim: part.cases)
  next
    case (Act l k)
    show ?case by (rule step[rule_format]) (auto elim: part.cases intro: Act)
  next
    case (WaitFor args k)
    show ?case by (rule step[rule_format]) (auto elim: part.cases intro: WaitFor)
  next
    case (Dispatch payload k)
    show ?case by (rule step[rule_format]) (auto elim: part.cases intro: Dispatch)
  next
    case (Register payloadable k)
    show ?case by (rule step[rule_format]) (auto elim: part.cases intro: Register)
  next
    case (Unregister tok k)
    show ?case by (rule step[rule_format]) (auto elim: part.cases intro: Unregister)
  next
    case (IsDispatching k)
    show ?case by (rule step[rule_format]) (auto elim: part.cases intro: IsDispatching)
  qed
qed

lemma wf_below: "wf (below :: ('p prog multiset \<times> 'p prog multiset) set)"
  unfolding below_def by (intro wf_mult wf_trancl wf_part)

lemma trans_below: "trans below"
  unfolding below_def mult_def by (rule trans_trancl)

lemma below_trans: "(a, b) \<in> below \<Longrightarrow> (b, c) \<in> below \<Longrightarrow> (a, c) \<in> below"
  using trans_below by (rule transD)

lemma below_remove: "(M, add_mset a M) \<in> below"
  unfolding below_def by (rule subset_implies_mult) simp

lemma below_replace:
  assumes "\<forall>b \<in># K. (b, a) \<in> part"
  shows "(M + K, add_mset a M) \<in> below"
proof -
  have "\<forall>k \<in> set_mset K. \<exists>j \<in> set_mset {#a#}. (k, j) \<in> part\<^sup>+" using assms by auto
  then have "(M + K, M + {#a#}) \<in> mult (part\<^sup>+)"
    by (intro one_step_implies_mult) simp_all
  then show ?thesis by (simp add: below_def)
qed

lemma below_add: "(X, Y) \<in> below \<Longrightarrow> (X + Z, Y + Z) \<in> below"
proof -
  assume "(X, Y) \<in> below"
  then obtain I J K where "Y = I + J" "X = I + K" "J \<noteq> {#}"
    "\<forall>k \<in> set_mset K. \<exists>j \<in> set_mset J. (k, j) \<in> part\<^sup>+"
    unfolding below_def using mult_implies_one_step[OF trans_trancl] by blast
  then show ?thesis
    unfolding below_def using one_step_implies_mult[of J K "part\<^sup>+" "I + Z"] by (simp add: ac_simps)
qed

lemma below_subset: "M' \<subseteq># M \<Longrightarrow> (M, N) \<in> below \<Longrightarrow> (M', N) \<in> below"
proof -
  assume s: "M' \<subseteq># M" and b: "(M, N) \<in> below"
  show ?thesis
  proof (cases "M' = M")
    case True
    then show ?thesis using b by simp
  next
    case False
    then have "M' \<subset># M" using s by (simp add: subset_mset.less_le)
    then have "(M', M) \<in> below" unfolding below_def by (rule subset_implies_mult)
    then show ?thesis using b by (rule below_trans)
  qed
qed

lemma below_part1: "(c1, c) \<in> part \<Longrightarrow> (add_mset c1 M, add_mset c M) \<in> below"
  using below_replace[of "{#c1#}" c M] by simp

lemma below_part_subset:
  "(c1, c) \<in> part \<Longrightarrow> M' \<subseteq># M \<Longrightarrow> (add_mset c1 M', add_mset c M) \<in> below"
  by (rule below_subset[of _ "add_mset c1 M"]) (simp_all add: below_part1)

lemma below_part2:
  assumes "(c1, c) \<in> part" and "(c2, c) \<in> part" and "M' \<subseteq># add_mset c2 M"
  shows "(add_mset c1 M', add_mset c M) \<in> below"
proof -
  have "(M + {#c1, c2#}, add_mset c M) \<in> below" using assms(1,2) by (intro below_replace) auto
  moreover have "add_mset c1 M' \<subseteq># M + {#c1, c2#}" using assms(3) by simp
  ultimately show ?thesis by (rule below_subset[rotated])
qed

lemma below_part_le:
  assumes "(c1, c) \<in> part" and "M' = M \<or> (M', M) \<in> below"
  shows "(add_mset c1 M', add_mset c M) \<in> below"
proof (cases "M' = M")
  case True
  then show ?thesis using assms(1) by (simp add: below_part1)
next
  case False
  then have "(M', M) \<in> below" using assms(2) by simp
  then have "(M' + {#c1#}, M + {#c1#}) \<in> below" by (rule below_add)
  then have "(add_mset c1 M', add_mset c1 M) \<in> below" by simp
  then show ?thesis using below_part1[OF assms(1)] by (rule below_trans)
qed

lemma below_le_trans:
  "A = B \<or> (A, B) \<in> below \<Longrightarrow> (B, C) \<in> below \<Longrightarrow> (A, C) \<in> below"
  using below_trans by blast

lemma le_below_trans:
  "A = B \<or> (A, B) \<in> below \<Longrightarrow> B = C \<or> (B, C) \<in> below \<Longrightarrow> A = C \<or> (A, C) \<in> below"
  using below_trans by blast

subsection \<open>The callbacks that can still be called\<close>

lemma todo_of_update:
  "todo_of flags p (AList.update tok payloadable al) \<subseteq># add_mset (payloadable p) (todo_of flags p al)"
proof (induction al)
  case Nil
  show ?case by simp
next
  case (Cons x al)
  obtain t cb where x: "x = (t, cb)" by (cases x)
  show ?case
  proof (cases "t = tok")
    case True
    then show ?thesis unfolding x by (simp add: subset_mset.le_iff_add)
  next
    case False
    then show ?thesis unfolding x using Cons.IH
      by (auto simp: add_mset_commute intro: subset_mset.order_trans)
  qed
qed

lemma todo_of_delete: "todo_of flags p (AList.delete tok al) \<subseteq># todo_of flags p al"
proof (induction al)
  case Nil
  show ?case by simp
next
  case (Cons x al)
  obtain t cb where x: "x = (t, cb)" by (cases x)
  show ?case unfolding x using Cons.IH
    by (auto intro: subset_mset.order_trans[OF _ mset_subset_eq_add_mset_cancel[THEN iffD2]]
        simp: subset_mset.le_iff_add)
qed


lemma todo_of_mark_other:
  "tok \<notin> fst ` set al \<Longrightarrow> todo_of (flags(tok \<mapsto> True)) p al = todo_of flags p al"
proof (induction al)
  case Nil
  show ?case by simp
next
  case (Cons x al)
  obtain t cb where x: "x = (t, cb)" by (cases x)
  show ?case using Cons unfolding x by (auto simp: truthy_def)
qed

lemma todo_of_mark:
  "distinct (map fst al) \<Longrightarrow> map_of al tok = Some payloadable \<Longrightarrow> \<not> truthy flags tok \<Longrightarrow>
   todo_of flags p al = add_mset (payloadable p) (todo_of (flags(tok \<mapsto> True)) p al)"
proof (induction al)
  case Nil
  then show ?case by simp
next
  case (Cons x al)
  obtain t cb where x: "x = (t, cb)" by (cases x)
  show ?case
  proof (cases "t = tok")
    case True
    then have "tok \<notin> fst ` set al" using Cons.prems(1) unfolding x by auto
    then have "todo_of (flags(tok \<mapsto> True)) p al = todo_of flags p al" by (rule todo_of_mark_other)
    moreover have "truthy (flags(tok \<mapsto> True)) tok" by (simp add: truthy_def)
    moreover have "cb = payloadable" using True Cons.prems(2) unfolding x by simp
    ultimately show ?thesis using True Cons.prems(3) unfolding x by (simp del: fun_upd_apply)
  next
    case False
    then have "map_of al tok = Some payloadable" using Cons.prems(2) unfolding x by simp
    moreover have "distinct (map fst al)" using Cons.prems(1) by simp
    ultimately have "todo_of flags p al = add_mset (payloadable p) (todo_of (flags(tok \<mapsto> True)) p al)"
      using Cons.IH Cons.prems(3) by blast
    moreover have "truthy (flags(tok \<mapsto> True)) t = truthy flags t" using False by (simp add: truthy_def)
    ultimately show ?thesis using False unfolding x by (simp del: fun_upd_apply)
  qed
qed

lemma todo_trace [simp]: "todo (st\<lparr> trace := t \<rparr>) = todo st"
  by (simp add: todo_def)

lemma todo_handled [simp]: "todo (st\<lparr> isHandled := h \<rparr>) = todo st"
  by (simp add: todo_def)

lemma todo_register:
  "todo (snd (register payloadable st)) \<subseteq># add_mset (payloadable (pendingPayload st)) (todo st)"
  by (simp add: register_def Let_def todo_def todo_of_update)

lemma todo_unregister: "todo (snd (unregister tok st)) \<subseteq># todo st"
  by (simp add: unregister_def todo_def todo_of_delete)

lemma todo_mark:
  "distinct (map fst (payloadables st)) \<Longrightarrow> map_of (payloadables st) tok = Some payloadable \<Longrightarrow>
   \<not> truthy (isPending st) tok \<Longrightarrow>
   todo st = add_mset (payloadable (pendingPayload st))
               (todo (st\<lparr> isPending := (isPending st)(tok \<mapsto> True) \<rparr>))"
  by (simp add: todo_def todo_of_mark)

lemma todo_mark_other:
  "map_of (payloadables st) tok = None \<Longrightarrow>
   todo (st\<lparr> isPending := (isPending st)(tok \<mapsto> True) \<rparr>) = todo st"
  by (simp add: todo_def todo_of_mark_other map_of_eq_None_iff)

subsection \<open>Callbacks, waitFor and the loop of dispatch come to an end\<close>

lemma invokePayloadable_ends:
  assumes IH: "\<And>c st'. in_round st' \<Longrightarrow> (add_mset c (todo st'), X) \<in> below \<Longrightarrow>
      \<exists>n r st''. run n c st' = Some (r, st'') \<and> in_round st'' \<and> (todo st'', add_mset c (todo st')) \<in> below"
    and st: "in_round st" and fresh: "\<not> truthy (isPending st) tok" and X: "(todo st, X) \<in> below"
  shows "\<exists>n r st'. invokePayloadable n s tok st = Some (r, st') \<and> in_round st'
           \<and> (todo st' = todo st \<or> (todo st', todo st) \<in> below)"
proof -
  let ?st1 = "st\<lparr> isPending := (isPending st)(tok \<mapsto> True) \<rparr>"
  have st1: "in_round ?st1" using st by (simp add: in_round_def)
  show ?thesis
  proof (cases "map_of (payloadables st) tok")
    case None
    then have "invokePayloadable (Suc 0) s tok st = Some (Inl TypeError, ?st1)" by (simp add: Let_def)
    moreover have "todo ?st1 = todo st" using None by (rule todo_mark_other)
    ultimately show ?thesis using st1 by blast
  next
    case (Some payloadable)
    let ?c = "payloadable (pendingPayload st)"
    let ?st2 = "?st1\<lparr> trace := trace ?st1 @ [Enter s tok] \<rparr>"
    have t: "todo st = add_mset ?c (todo ?st2)"
      using st Some fresh by (simp add: in_round_def todo_mark)
    have st2: "in_round ?st2" using st by (simp add: in_round_def)
    from IH[OF st2, of ?c] X t obtain n r st3 where
      r: "run n ?c ?st2 = Some (r, st3)" and st3: "in_round st3" and b: "(todo st3, todo st) \<in> below"
      by auto
    show ?thesis
    proof (cases r)
      case (Inl e)
      then have "invokePayloadable (Suc n) s tok st = Some (Inl e, st3)"
        using Some r by (simp add: Let_def)
      then show ?thesis using st3 b by blast
    next
      case (Inr u)
      let ?st4 = "st3\<lparr> isHandled := (isHandled st3)(tok \<mapsto> True), trace := trace st3 @ [Leave tok] \<rparr>"
      have "invokePayloadable (Suc n) s tok st = Some (Inr (), ?st4)"
        using Some r Inr by (simp add: Let_def)
      moreover have "in_round ?st4" using st3 by (simp add: in_round_def)
      moreover have "todo ?st4 = todo st3" by simp
      ultimately show ?thesis using b by (metis (no_types, lifting))
    qed
  qed
qed

lemma waitFor_loop_ends:
  assumes IH: "\<And>c st'. in_round st' \<Longrightarrow> (add_mset c (todo st'), X) \<in> below \<Longrightarrow>
      \<exists>n r st''. run n c st' = Some (r, st'') \<and> in_round st'' \<and> (todo st'', add_mset c (todo st')) \<in> below"
  shows "in_round st \<Longrightarrow> (todo st, X) \<in> below \<Longrightarrow>
         \<exists>n r st'. waitFor_loop n ids st = Some (r, st') \<and> in_round st'
           \<and> (todo st' = todo st \<or> (todo st', todo st) \<in> below)"
proof (induction ids arbitrary: st)
  case Nil
  have "waitFor_loop 0 [] st = Some (Inr (), st)" by simp
  then show ?case using Nil.prems(1) by blast
next
  case (Cons i ids)
  let ?tok = "key i"
  from Cons.IH[OF Cons.prems] obtain n0 r0 st0 where
    same: "waitFor_loop n0 ids st = Some (r0, st0)" "in_round st0"
          "todo st0 = todo st \<or> (todo st0, todo st) \<in> below"
    by blast
  show ?case
  proof (cases "truthy (isPending st) ?tok")
    case True
    show ?thesis
    proof (cases "truthy (isHandled st) ?tok")
      case False
      then have "waitFor_loop (Suc 0) (i # ids) st = Some (Inl (CircularDependency ?tok), st)"
        using True by (simp add: Let_def)
      then show ?thesis using Cons.prems(1) by blast
    next
      case h: True
      then have "waitFor_loop (Suc n0) (i # ids) st = Some (r0, st0)"
        using True same(1) by (simp add: Let_def)
      then show ?thesis using same(2,3) by blast
    qed
  next
    case False
    show ?thesis
    proof (cases "has_payloadable st ?tok")
      case no: False
      then have "waitFor_loop (Suc 0) (i # ids) st = Some (Inl (UnknownSubscriber ?tok), st)"
        using False by (simp add: Let_def)
      then show ?thesis using Cons.prems(1) by blast
    next
      case yes: True
      from invokePayloadable_ends[OF IH Cons.prems(1) False Cons.prems(2), of FromWaitFor]
      obtain n1 r1 st1 where
        i: "invokePayloadable n1 FromWaitFor ?tok st = Some (r1, st1)" and st1: "in_round st1"
        and le: "todo st1 = todo st \<or> (todo st1, todo st) \<in> below"
        by blast
      show ?thesis
      proof (cases r1)
        case (Inl e)
        then have "waitFor_loop (Suc n1) (i # ids) st = Some (Inl e, st1)"
          using False yes i by (simp add: Let_def)
        then show ?thesis using st1 le by blast
      next
        case (Inr u)
        have "(todo st1, X) \<in> below" using le Cons.prems(2) by (rule below_le_trans)
        from Cons.IH[OF st1 this] obtain n2 r2 st2 where
          w: "waitFor_loop n2 ids st1 = Some (r2, st2)" and st2: "in_round st2"
          and le2: "todo st2 = todo st1 \<or> (todo st2, todo st1) \<in> below"
          by blast
        let ?n = "max n1 n2"
        have "invokePayloadable ?n FromWaitFor ?tok st = Some (r1, st1)"
          using i by (rule more_fuel_invoke) simp
        moreover have "waitFor_loop ?n ids st1 = Some (r2, st2)"
          using w by (rule more_fuel_waitFor_loop) simp
        ultimately have "waitFor_loop (Suc ?n) (i # ids) st = Some (r2, st2)"
          using False yes Inr by (simp add: Let_def)
        moreover have "todo st2 = todo st \<or> (todo st2, todo st) \<in> below"
          using le2 le by (rule le_below_trans)
        ultimately show ?thesis using st2 by blast
      qed
    qed
  qed
qed

lemma dispatch_loop_ends:
  assumes IH: "\<And>c st'. in_round st' \<Longrightarrow> (add_mset c (todo st'), X) \<in> below \<Longrightarrow>
      \<exists>n r st''. run n c st' = Some (r, st'') \<and> in_round st'' \<and> (todo st'', add_mset c (todo st')) \<in> below"
  shows "in_round st \<Longrightarrow> (todo st, X) \<in> below \<Longrightarrow>
         \<exists>n r st'. dispatch_loop n ks st = Some (r, st') \<and> in_round st'
           \<and> (todo st' = todo st \<or> (todo st', todo st) \<in> below)"
proof (induction ks arbitrary: st)
  case Nil
  have "dispatch_loop 0 [] st = Some (Inr (), st)" by simp
  then show ?case using Nil.prems(1) by blast
next
  case (Cons tok ks)
  from Cons.IH[OF Cons.prems] obtain n0 r0 st0 where
    same: "dispatch_loop n0 ks st = Some (r0, st0)" "in_round st0"
          "todo st0 = todo st \<or> (todo st0, todo st) \<in> below"
    by blast
  show ?case
  proof (cases "map_of (payloadables st) tok = None \<or> truthy (isPending st) tok")
    case True
    then have "dispatch_loop (Suc n0) (tok # ks) st = Some (r0, st0)"
      using same(1) by auto
    then show ?thesis using same(2,3) by blast
  next
    case False
    then have fresh: "\<not> truthy (isPending st) tok" by simp
    from invokePayloadable_ends[OF IH Cons.prems(1) fresh Cons.prems(2), of FromDispatch]
    obtain n1 r1 st1 where
      i: "invokePayloadable n1 FromDispatch tok st = Some (r1, st1)" and st1: "in_round st1"
      and le: "todo st1 = todo st \<or> (todo st1, todo st) \<in> below"
      by blast
    show ?thesis
    proof (cases r1)
      case (Inl e)
      then have "dispatch_loop (Suc n1) (tok # ks) st = Some (Inl e, st1)"
        using False i by auto
      then show ?thesis using st1 le by blast
    next
      case (Inr u)
      have "(todo st1, X) \<in> below" using le Cons.prems(2) by (rule below_le_trans)
      from Cons.IH[OF st1 this] obtain n2 r2 st2 where
        w: "dispatch_loop n2 ks st1 = Some (r2, st2)" and st2: "in_round st2"
        and le2: "todo st2 = todo st1 \<or> (todo st2, todo st1) \<in> below"
        by blast
      let ?n = "max n1 n2"
      have "invokePayloadable ?n FromDispatch tok st = Some (r1, st1)"
        using i by (rule more_fuel_invoke) simp
      moreover have "dispatch_loop ?n ks st1 = Some (r2, st2)"
        using w by (rule more_fuel_dispatch_loop) simp
      ultimately have "dispatch_loop (Suc ?n) (tok # ks) st = Some (r2, st2)"
        using False Inr by auto
      moreover have "todo st2 = todo st \<or> (todo st2, todo st) \<in> below"
        using le2 le by (rule le_below_trans)
      ultimately show ?thesis using st2 by blast
    qed
  qed
qed

lemma run_ends_below:
  "\<forall>c st. add_mset c (todo st) = X \<longrightarrow> in_round st \<longrightarrow>
     (\<exists>n r st'. run n c st = Some (r, st') \<and> in_round st' \<and> (todo st', X) \<in> below)"
proof (induction X rule: wf_induct_rule[OF wf_below])
  case (1 X)
  have IH: "\<exists>n r st''. run n c st' = Some (r, st'') \<and> in_round st''
              \<and> (todo st'', add_mset c (todo st')) \<in> below"
    if "in_round st'" and "(add_mset c (todo st'), X) \<in> below" for c st'
    using 1[OF that(2)] that(1) by blast
  have next_step: "\<exists>n r st''. run n c st' = Some (r, st'') \<and> in_round st'' \<and> (todo st'', X) \<in> below"
    if "in_round st'" and "(add_mset c (todo st'), X) \<in> below" for c st'
    using IH[OF that] that(2) below_trans by blast
  show ?case
  proof (intro allI impI)
    fix c :: "'a prog" and st
    assume X: "add_mset c (todo st) = X" and st: "in_round st"
    show "\<exists>n r st'. run n c st = Some (r, st') \<and> in_round st' \<and> (todo st', X) \<in> below"
    proof (cases c)
      case Return
      then have "run (Suc 0) c st = Some (Inr (), st)" by simp
      moreover have "(todo st, X) \<in> below" unfolding X[symmetric] by (rule below_remove)
      ultimately show ?thesis using st by blast
    next
      case (Throw e)
      then have "run (Suc 0) c st = Some (Inl e, st)" by simp
      moreover have "(todo st, X) \<in> below" unfolding X[symmetric] by (rule below_remove)
      ultimately show ?thesis using st by blast
    next
      case (Act l k)
      let ?st1 = "st\<lparr> trace := trace st @ [Did l] \<rparr>"
      have "in_round ?st1" using st by (simp add: in_round_def)
      moreover have "(add_mset k (todo ?st1), X) \<in> below"
        unfolding X[symmetric] Act by (simp add: below_part1 part_Act)
      ultimately obtain n r st' where
        "run n k ?st1 = Some (r, st')" "in_round st'" "(todo st', X) \<in> below"
        using next_step by blast
      moreover from this(1) have "run (Suc n) c st = Some (r, st')" by (simp add: Act)
      ultimately show ?thesis by blast
    next
      case (WaitFor args k)
      show ?thesis
      proof (cases "dispatchTokens args")
        case (Inl e)
        have "(add_mset (k (Inl e)) (todo st), X) \<in> below"
          unfolding X[symmetric] WaitFor by (simp add: below_part1 part_WaitFor)
        with st obtain n r st' where
          "run n (k (Inl e)) st = Some (r, st')" "in_round st'" "(todo st', X) \<in> below"
          using next_step by blast
        moreover from this(1) have "run (Suc n) c st = Some (r, st')" by (simp add: WaitFor Inl)
        ultimately show ?thesis by blast
      next
        case (Inr ids)
        have "(todo st, X) \<in> below" unfolding X[symmetric] by (rule below_remove)
        from waitFor_loop_ends[OF IH st this, of ids] obtain n1 r1 st1 where
          w: "waitFor_loop n1 ids st = Some (r1, st1)" and st1: "in_round st1"
          and le: "todo st1 = todo st \<or> (todo st1, todo st) \<in> below"
          by blast
        have "(add_mset (k r1) (todo st1), X) \<in> below"
          unfolding X[symmetric] WaitFor using le by (intro below_part_le part_WaitFor)
        with st1 obtain n2 r st' where
          r: "run n2 (k r1) st1 = Some (r, st')" and "in_round st'" "(todo st', X) \<in> below"
          using next_step by blast
        let ?n = "max n1 n2"
        have "waitFor_loop ?n ids st = Some (r1, st1)" using w by (rule more_fuel_waitFor_loop) simp
        moreover have "run ?n (k r1) st1 = Some (r, st')" using r by (rule more_fuel_run) simp
        ultimately have "run (Suc ?n) c st = Some (r, st')"
          using st by (simp add: WaitFor Inr in_round_def)
        then show ?thesis using \<open>in_round st'\<close> \<open>(todo st', X) \<in> below\<close> by blast
      qed
    next
      case (Dispatch payload k)
      let ?r = "Inl ReentrantDispatch :: error + unit"
      have "(add_mset (k ?r) (todo st), X) \<in> below"
        unfolding X[symmetric] Dispatch by (simp add: below_part1 part_Dispatch)
      with st obtain n r st' where
        "run n (k ?r) st = Some (r, st')" "in_round st'" "(todo st', X) \<in> below"
        using next_step by blast
      moreover from this(1) have "run (Suc n) c st = Some (r, st')"
        using st by (simp add: Dispatch in_round_def)
      ultimately show ?thesis by blast
    next
      case (Register payloadable k)
      let ?tok = "fst (register payloadable st)" and ?st1 = "snd (register payloadable st)"
      have "in_round ?st1" using st by (simp add: in_round_def register_def Let_def distinct_update)
      moreover have "(add_mset (k ?tok) (todo ?st1), X) \<in> below"
        unfolding X[symmetric] Register
        by (rule below_part2[OF part_Register part_Register_callback todo_register])
      ultimately obtain n r st' where
        "run n (k ?tok) ?st1 = Some (r, st')" "in_round st'" "(todo st', X) \<in> below"
        using next_step by blast
      moreover from this(1) have "run (Suc n) c st = Some (r, st')"
        by (simp add: Register split_beta)
      ultimately show ?thesis by blast
    next
      case (Unregister tok k)
      let ?r = "fst (unregister tok st)" and ?st1 = "snd (unregister tok st)"
      have "in_round ?st1" using st by (simp add: in_round_def unregister_def distinct_delete)
      moreover have "(add_mset (k ?r) (todo ?st1), X) \<in> below"
        unfolding X[symmetric] Unregister
        by (rule below_part_subset[OF part_Unregister todo_unregister])
      ultimately obtain n r st' where
        "run n (k ?r) ?st1 = Some (r, st')" "in_round st'" "(todo st', X) \<in> below"
        using next_step by blast
      moreover from this(1) have "run (Suc n) c st = Some (r, st')"
        by (simp add: Unregister split_beta)
      ultimately show ?thesis by blast
    next
      case (IsDispatching k)
      have "(add_mset (k (isDispatching st)) (todo st), X) \<in> below"
        unfolding X[symmetric] IsDispatching by (simp add: below_part1 part_IsDispatching)
      with st obtain n r st' where
        "run n (k (isDispatching st)) st = Some (r, st')" "in_round st'" "(todo st', X) \<in> below"
        using next_step by blast
      moreover from this(1) have "run (Suc n) c st = Some (r, st')" by (simp add: IsDispatching)
      ultimately show ?thesis by blast
    qed
  qed
qed

lemma run_ends:
  "in_round st \<Longrightarrow>
   \<exists>n r st'. run n c st = Some (r, st') \<and> in_round st' \<and> (todo st', add_mset c (todo st)) \<in> below"
  using run_ends_below by blast

lemma in_round_startDispatching:
  "distinct (map fst (payloadables st)) \<Longrightarrow> in_round (startDispatching payload st)"
  by (simp add: in_round_def startDispatching_def)

lemma dispatch_ends:
  assumes "distinct (map fst (payloadables st))"
  shows "\<exists>n r st'. dispatch n payload st = Some (r, st')"
proof (cases "dispatching st")
  case True
  then show ?thesis by simp
next
  case False
  let ?st0 = "startDispatching payload st"
  have "in_round ?st0" using assms by (rule in_round_startDispatching)
  moreover have "(todo ?st0, add_mset Return (todo ?st0)) \<in> below" by (rule below_remove)
  ultimately obtain n r st' where
    "dispatch_loop n (map fst (payloadables st)) ?st0 = Some (r, st')"
    using dispatch_loop_ends[of "add_mset Return (todo ?st0)" ?st0 "map fst (payloadables st)"] run_ends
    by blast
  then have "dispatch n payload st = Some (r, stopDispatching st')" using False by simp
  then show ?thesis by blast
qed

section \<open>Tokens\<close>

subsection \<open>The decimal form of a number determines it\<close>
lemma digit_inj: "a < 10 \<Longrightarrow> b < 10 \<Longrightarrow> digit a = digit b \<Longrightarrow> a = b"
proof -
  assume a: "a < 10" and b: "b < 10" and e: "digit a = digit b"
  have d: "distinct Digits" by (simp add: Digits_def)
  have l: "length Digits = 10" by (simp add: Digits_def)
  have "Digits ! a = Digits ! b" using e a b by (simp add: digit_def)
  then show "a = b" using d l a b by (simp add: nth_eq_iff_index_eq)
qed

lemma digit_in: "digit d \<in> set Digits"
proof -
  have "d mod 10 < length Digits" by (simp add: Digits_def)
  then show ?thesis unfolding digit_def by (rule nth_mem)
qed

lemma decimal_digits: "set (decimal n) \<subseteq> set Digits"
proof (induction n rule: decimal.induct)
  case (1 n)
  show ?case
  proof (cases "n < 10")
    case True
    then show ?thesis using digit_in[of n] by (simp add: decimal_small)
  next
    case False
    then have "set (decimal (n div 10)) \<subseteq> set Digits" by (rule 1)
    then show ?thesis using False digit_in[of "n mod 10"]
      by (simp add: decimal_large)
  qed
qed

lemma decimal_nonempty: "decimal n \<noteq> []"
  by (subst decimal.simps) simp

lemma length_decimal_small: "length (decimal n) = Suc 0 \<longleftrightarrow> n < 10"
proof (cases "n < 10")
  case True
  then show ?thesis by (simp add: decimal_small)
next
  case False
  then have "decimal n = decimal (n div 10) @ [digit (n mod 10)]" by (simp add: decimal_large)
  moreover have "length (decimal (n div 10)) \<noteq> 0" using decimal_nonempty by simp
  ultimately show ?thesis using False by simp
qed

lemma decimal_inj: "decimal m = decimal n \<Longrightarrow> m = n"
proof (induction m arbitrary: n rule: decimal.induct)
  case (1 m)
  show ?case
  proof (cases "m < 10")
    case True
    then have "length (decimal n) = Suc 0" using "1.prems" length_decimal_small[of m] by simp
    then have n: "n < 10" by (simp add: length_decimal_small)
    then have "digit m = digit n" using True "1.prems" by (simp add: decimal_small)
    then show ?thesis using True n by (rule digit_inj[rotated 2])
  next
    case False
    then have "length (decimal n) \<noteq> Suc 0" using "1.prems" length_decimal_small[of m] by simp
    then have n: "\<not> n < 10" by (simp add: length_decimal_small)
    have "decimal (m div 10) @ [digit (m mod 10)] = decimal (n div 10) @ [digit (n mod 10)]"
      using False n "1.prems" by (simp add: decimal_large)
    then have a: "decimal (m div 10) = decimal (n div 10)" and b: "digit (m mod 10) = digit (n mod 10)"
      by simp_all
    from a have "m div 10 = n div 10" using False by (rule "1.IH"[rotated])
    moreover from b have "m mod 10 = n mod 10" by (rule digit_inj[rotated 2]) simp_all
    ultimately show ?thesis by (metis div_mult_mod_eq)
  qed
qed

lemma is_token_issued: "is_token (Prefix @ decimal n)"
  using decimal_digits[of n] decimal_nonempty[of n]
  by (simp add: is_token_def Prefix_def)

lemma is_token_not_inherited: "is_token t \<Longrightarrow> t \<notin> set Object_prototype"
  by (auto simp: is_token_def Prefix_def Object_prototype_def)

lemma is_token_not_undefined: "\<not> is_token ''undefined''"
  by (simp add: is_token_def Prefix_def)

subsection \<open>Well-formed states stay well-formed\<close>

lemma well_formed_new: "well_formed new_dispatcher"
  by (simp add: well_formed_def new_dispatcher_def)

lemma fst_set_update: "fst ` set (AList.update k v al) = insert k (fst ` set al)"
  by (induction al) auto

lemma well_formed_register: "well_formed st \<Longrightarrow> well_formed (snd (register payloadable st))"
  by (auto simp: well_formed_def register_def Let_def is_token_issued distinct_update fst_set_update)

lemma fst_set_delete: "fst ` set (AList.delete k al) = fst ` set al - {k}"
  by (induction al) auto

lemma well_formed_unregister: "well_formed st \<Longrightarrow> well_formed (snd (unregister tok st))"
  by (auto simp: well_formed_def unregister_def distinct_delete fst_set_delete)

lemma well_formed_not_pending_inherited:
  "well_formed st \<Longrightarrow> tok \<in> set Object_prototype \<Longrightarrow> truthy (isPending st) tok"
  by (cases "isPending st tok") (auto simp: well_formed_def truthy_def dest: is_token_not_inherited)

lemma atomic_well_formed: "atomic K a b \<Longrightarrow> well_formed a \<Longrightarrow> well_formed b"
proof (induction rule: atomic.induct)
  case (act st l)
  then show ?case by (simp add: well_formed_def)
next
  case (reg st payloadable)
  then show ?case by (simp add: well_formed_register)
next
  case (unreg st tok)
  then show ?case by (simp add: well_formed_unregister)
next
  case (enter st tok payloadable s)
  from enter(2) have "tok \<in> fst ` set (payloadables st)" by (rule map_of_SomeD[THEN imageI, of _ _ _ fst, simplified])
  then show ?case using enter(4) by (auto simp: well_formed_def)
next
  case (leave st tok)
  then have "tok \<in> dom (isPending st)" by auto
  then show ?case using leave(2) by (auto simp: well_formed_def)
next
  case (mark st tok)
  then show ?case using well_formed_not_pending_inherited by blast
qed

lemma path_well_formed: "path K a b \<Longrightarrow> well_formed a \<Longrightarrow> well_formed b"
  by (induction rule: rtranclp_induct) (auto dest: atomic_well_formed)

lemma fold_reset_dom:
  "dom (fold (\<lambda>tok m. m(tok \<mapsto> False)) ks m) = set ks \<union> dom m"
  by (induction ks arbitrary: m) auto

lemma well_formed_startDispatching: "well_formed st \<Longrightarrow> well_formed (startDispatching p st)"
  by (auto simp: well_formed_def startDispatching_def fold_reset_dom)

lemma well_formed_stopDispatching: "well_formed st \<Longrightarrow> well_formed (stopDispatching st)"
  by (simp add: well_formed_def stopDispatching_def)

lemma well_formed_dispatch: "well_formed st \<Longrightarrow> dispatch n p st = Some (r, st') \<Longrightarrow> well_formed st'"
proof (cases "dispatching st")
  case True
  assume "well_formed st" "dispatch n p st = Some (r, st')"
  then show ?thesis using True by simp
next
  case False
  assume w: "well_formed st" and d: "dispatch n p st = Some (r, st')"
  from False d obtain s where s: "st' = stopDispatching s"
    and p: "path (set (map fst (payloadables st))) (startDispatching p st) s"
    by (rule dispatch_round)
  from p w have "well_formed s" by (auto intro: path_well_formed well_formed_startDispatching)
  then show ?thesis unfolding s by (rule well_formed_stopDispatching)
qed

section \<open>Rejecting a dispatch during a round\<close>

text \<open>
  Claim C3. In every engine state in which a round is active, \<open>dispatch\<close> fails at once
  with the "Cannot dispatch in the middle of a dispatch" error, whatever the payload and
  with no fuel used, and the state it leaves is the state it found: registry, pending and
  handled flags, stored payload, dispatching flag and counter are all unchanged. A callback
  that makes the call receives exactly that error, in an unchanged state.
\<close>

theorem dispatch_reentrant:
  assumes "isDispatching st"
  shows "dispatch n payload st = Some (Inl ReentrantDispatch, st)
       \<and> run (Suc n) (Dispatch payload k) st = run n (k (Inl ReentrantDispatch)) st"
  using assms by (simp add: isDispatching_def)

theorem dispatch_reentrant_witness:
  "isDispatching (startDispatching (1::nat) (snd (register noop new_dispatcher)))
   \<and> dispatch 0 2 (startDispatching (1::nat) (snd (register noop new_dispatcher)))
       = Some (Inl ReentrantDispatch, startDispatching 1 (snd (register noop new_dispatcher)))"
proof -
  have h: "isDispatching (startDispatching (1::nat) (snd (register noop new_dispatcher)))"
    by (simp add: isDispatching_def startDispatching_def)
  show ?thesis
    using h dispatch_reentrant [OF h, of 0 2] by simp
qed

section \<open>Tearing a round down\<close>

lemma round_flags:
  assumes "\<not> dispatching st" and "dispatch n payload st = Some (r, st')"
  shows "(\<forall>tok \<in> set (entered (new_events st st')). isPending st' tok = Some True)
       \<and> (\<forall>tok \<in> set (left (new_events st st')). isHandled st' tok = Some True)"
proof -
  from assms obtain s where
    st': "st' = stopDispatching s"
    and p: "path (set (map fst (payloadables st))) (startDispatching payload st) s"
    and ne: "new_events st st' = new_events (startDispatching payload st) s"
    by (rule dispatch_round)
  from p have "seg_ok (set (map fst (payloadables st))) (startDispatching payload st) s"
    by (rule path_seg_ok)
  then have "(\<forall>tok \<in> set (entered (new_events (startDispatching payload st) s)). isPending s tok = Some True)
       \<and> (\<forall>tok \<in> set (left (new_events (startDispatching payload st) s)). isHandled s tok = Some True)"
    by (simp add: seg_ok_def)
  moreover have "isPending st' = isPending s" "isHandled st' = isHandled s"
    unfolding st' by (simp_all add: stopDispatching_def)
  ultimately show ?thesis unfolding ne by simp
qed

text \<open>
  Claim C4, as the code has it. A \<open>dispatch\<close> call that begins a round (the engine was not
  dispatching) leaves, whether it returns normally or an error propagates out of it, an
  engine whose stored payload is removed and for which \<open>isDispatching()\<close> is false.
  \<open>_stopDispatching\<close> does not touch the pending and handled flags: after the call they
  are what they were when the loop of \<open>dispatch\<close> ended, so the pending flag of every token
  whose callback was called in the round is still \<open>true\<close>, and so is the handled flag of
  every token whose callback returned. It is \<open>_startDispatching\<close> of the next round that
  sets both flags to \<open>false\<close> for every registered token. A \<open>dispatch\<close> call made while
  a round is active is rejected and leaves the engine as it was: \<open>isDispatching()\<close> is
  still true.
\<close>

theorem dispatch_teardown:
  "(\<not> isDispatching st \<longrightarrow> dispatch n payload st = Some (r, st') \<longrightarrow>
      pendingPayload st' = None \<and> \<not> isDispatching st'
    \<and> (\<exists>s. dispatch_loop n (map fst (payloadables st)) (startDispatching payload st) = Some (r, s)
          \<and> st' = stopDispatching s \<and> isPending st' = isPending s \<and> isHandled st' = isHandled s)
    \<and> (\<forall>tok \<in> set (entered (new_events st st')). isPending st' tok = Some True)
    \<and> (\<forall>tok \<in> set (left (new_events st st')). isHandled st' tok = Some True)
    \<and> (\<forall>tok \<in> set (map fst (payloadables st')).
          isPending (startDispatching q st') tok = Some False
        \<and> isHandled (startDispatching q st') tok = Some False))
 \<and> (isDispatching st \<longrightarrow>
      dispatch n payload st = Some (Inl ReentrantDispatch, st)
    \<and> isDispatching (snd (the (dispatch n payload st))))"
proof (intro conjI impI)
  assume nd: "\<not> isDispatching st" and d: "dispatch n payload st = Some (r, st')"
  from nd d obtain s where
    l: "dispatch_loop n (map fst (payloadables st)) (startDispatching payload st) = Some (r, s)"
    and st': "st' = stopDispatching s"
    by (auto simp: isDispatching_def split: option.splits)
  show "pendingPayload st' = None" unfolding st' by (simp add: stopDispatching_def)
  show "\<not> isDispatching st'" unfolding st' by (simp add: stopDispatching_def isDispatching_def)
  show "\<exists>s. dispatch_loop n (map fst (payloadables st)) (startDispatching payload st) = Some (r, s)
          \<and> st' = stopDispatching s \<and> isPending st' = isPending s \<and> isHandled st' = isHandled s"
    using l st' by (auto simp: stopDispatching_def)
  have nd': "\<not> dispatching st" using nd by (simp add: isDispatching_def)
  show "\<forall>tok \<in> set (entered (new_events st st')). isPending st' tok = Some True"
    using round_flags[OF nd' d] by blast
  show "\<forall>tok \<in> set (left (new_events st st')). isHandled st' tok = Some True"
    using round_flags[OF nd' d] by blast
  show "\<forall>tok \<in> set (map fst (payloadables st')).
          isPending (startDispatching q st') tok = Some False
        \<and> isHandled (startDispatching q st') tok = Some False"
    by (simp add: isPending_startDispatching isHandled_startDispatching)
next
  assume d: "isDispatching st"
  then show "dispatch n payload st = Some (Inl ReentrantDispatch, st)"
    by (simp add: isDispatching_def)
  with d show "isDispatching (snd (the (dispatch n payload st)))"
    by (simp del: dispatch.simps)
qed

theorem dispatch_teardown_witness:
  "\<not> isDispatching (snd (register noop (new_dispatcher :: nat dispatcher)))
   \<and> dispatch 3 (0::nat) (snd (register noop new_dispatcher)) \<noteq> None
   \<and> fst (the (dispatch 3 (0::nat) (snd (register noop new_dispatcher)))) = Inr ()
   \<and> pendingPayload (snd (the (dispatch 3 (0::nat) (snd (register noop new_dispatcher))))) = None
   \<and> \<not> isDispatching (snd (the (dispatch 3 (0::nat) (snd (register noop new_dispatcher)))))
   \<and> isPending (snd (the (dispatch 3 (0::nat) (snd (register noop new_dispatcher))))) ''ID_1'' = Some True
   \<and> isHandled (snd (the (dispatch 3 (0::nat) (snd (register noop new_dispatcher))))) ''ID_1'' = Some True
   \<and> isPending (startDispatching 1 (snd (the (dispatch 3 (0::nat) (snd (register noop new_dispatcher))))))
        ''ID_1'' = Some False
   \<and> \<not> isDispatching (snd (register thrower new_dispatcher))
   \<and> dispatch 3 ''p'' (snd (register thrower new_dispatcher)) \<noteq> None
   \<and> fst (the (dispatch 3 ''p'' (snd (register thrower new_dispatcher)))) = Inl (Thrown ''boom'')
   \<and> pendingPayload (snd (the (dispatch 3 ''p'' (snd (register thrower new_dispatcher))))) = None
   \<and> \<not> isDispatching (snd (the (dispatch 3 ''p'' (snd (register thrower new_dispatcher)))))
   \<and> isPending (snd (the (dispatch 3 ''p'' (snd (register thrower new_dispatcher))))) ''ID_1'' = Some True
   \<and> isDispatching (startDispatching (0::nat) (snd (register noop new_dispatcher)))
   \<and> dispatch 3 (1::nat) (startDispatching 0 (snd (register noop new_dispatcher)))
        = Some (Inl ReentrantDispatch, startDispatching 0 (snd (register noop new_dispatcher)))"
proof -
  let ?st = "snd (register noop (new_dispatcher :: nat dispatcher))"
  let ?r = "snd (the (dispatch 3 0 ?st))"
  have h1: "\<not> isDispatching ?st" by (simp add: engine)
  have h2: "dispatch 3 0 ?st \<noteq> None" by (simp add: engine noop_def)
  have h2': "fst (the (dispatch 3 0 ?st)) = Inr ()" by (simp add: engine noop_def)
  from h2 have h3: "dispatch 3 0 ?st = Some (fst (the (dispatch 3 0 ?st)), ?r)" by auto
  have k: "''ID_1'' \<in> set (map fst (payloadables ?r))" by (simp add: engine noop_def)
  have ke: "''ID_1'' \<in> set (entered (new_events ?st ?r))"
    by (simp add: engine noop_def new_events_def)
  have kl: "''ID_1'' \<in> set (left (new_events ?st ?r))"
    by (simp add: engine noop_def new_events_def)
  note t = dispatch_teardown [where st = ?st and n = 3 and payload = 0
      and r = "fst (the (dispatch 3 0 ?st))" and st' = ?r and q = 1, THEN conjunct1, rule_format, OF h1 h3]
  have a1: "pendingPayload ?r = None" using t by blast
  have a2: "\<not> isDispatching ?r" using t by blast
  have a3: "isPending ?r ''ID_1'' = Some True" using t ke by blast
  have a4: "isHandled ?r ''ID_1'' = Some True" using t kl by blast
  have a5: "isPending (startDispatching 1 ?r) ''ID_1'' = Some False" using t k by blast
  let ?se = "snd (register thrower new_dispatcher)"
  let ?re = "snd (the (dispatch 3 ''p'' ?se))"
  have e1: "\<not> isDispatching ?se" by (simp add: engine)
  have e2: "dispatch 3 ''p'' ?se \<noteq> None" by (simp add: engine thrower_def)
  have e2': "fst (the (dispatch 3 ''p'' ?se)) = Inl (Thrown ''boom'')" by (simp add: engine thrower_def)
  from e2 have e3: "dispatch 3 ''p'' ?se = Some (fst (the (dispatch 3 ''p'' ?se)), ?re)" by auto
  have ee: "''ID_1'' \<in> set (entered (new_events ?se ?re))"
    by (simp add: engine thrower_def new_events_def)
  note u = dispatch_teardown [where st = ?se and n = 3 and payload = "''p''"
      and r = "fst (the (dispatch 3 ''p'' ?se))" and st' = ?re, THEN conjunct1, rule_format, OF e1 e3]
  have b1: "pendingPayload ?re = None" using u by blast
  have b2: "\<not> isDispatching ?re" using u by blast
  have b3: "isPending ?re ''ID_1'' = Some True" using u ee by blast
  let ?sd = "startDispatching (0::nat) ?st"
  have d1: "isDispatching ?sd" by (simp add: isDispatching_def)
  have d2: "dispatch 3 1 ?sd = Some (Inl ReentrantDispatch, ?sd)"
    using dispatch_teardown [where st = ?sd and n = 3 and payload = 1, THEN conjunct2, rule_format, OF d1]
    by blast
  show ?thesis
    by (insert h1 h2 h2' a1 a2 a3 a4 a5 e1 e2 e2' b1 b2 b3 d1 d2, intro conjI; assumption)
qed

text \<open>
  The claim as stated fails: after a round that returned normally the pending and handled
  flags of the subscriber are still \<open>true\<close>; and a \<open>dispatch\<close> call made during a round
  (it is rejected) leaves \<open>isDispatching()\<close> true.
\<close>

theorem flags_survive_teardown:
  "dispatch 3 (0::nat) (snd (register noop new_dispatcher)) \<noteq> None
   \<and> fst (the (dispatch 3 (0::nat) (snd (register noop new_dispatcher)))) = Inr ()
   \<and> isPending (snd (the (dispatch 3 (0::nat) (snd (register noop new_dispatcher))))) ''ID_1'' = Some True
   \<and> isHandled (snd (the (dispatch 3 (0::nat) (snd (register noop new_dispatcher))))) ''ID_1'' = Some True
   \<and> isDispatching (snd (the (dispatch 3 (1::nat)
        (startDispatching 0 (snd (register noop new_dispatcher))))))"
  by (simp add: engine noop_def)

section \<open>Subscribers registered during a round\<close>

lemma seg_ok_loop: "seg_ok K a b \<Longrightarrow> set (loop_entered (new_events a b)) \<subseteq> K"
  by (simp add: seg_ok_def)

lemma waitFor_invokes:
  assumes "dispatching st" and "\<not> truthy (isPending st) tok"
    and "map_of (payloadables st) tok = Some payloadable"
  shows "waitFor (Suc (Suc n)) [Subscriber tok] st =
      (case run n (payloadable (pendingPayload st))
              (st\<lparr> isPending := (isPending st)(tok \<mapsto> True), trace := trace st @ [Enter FromWaitFor tok] \<rparr>) of
         None \<Rightarrow> None
       | Some (Inl e, st2) \<Rightarrow> Some (Inl e, st2)
       | Some (Inr u, st2) \<Rightarrow>
           Some (Inr (), st2\<lparr> isHandled := (isHandled st2)(tok \<mapsto> True), trace := trace st2 @ [Leave tok] \<rparr>))"
  using assms
  by (auto simp: has_payloadable_def Let_def split: option.splits sum.splits)

text \<open>
  Claim C5, as the code has it. The loop of \<open>dispatch\<close> calls only callbacks of tokens that
  were registered when the round began: a subscriber registered during the round is not
  reached by the main iteration. \<open>waitFor\<close>, however, looks the token up in the live
  registry: once a callback has registered a subscriber, a \<open>waitFor\<close> on the new token
  (not pending) calls the new subscriber's callback at once, with the payload of the round
  in flight.
\<close>

theorem late_registration:
  "(\<not> isDispatching st \<longrightarrow> dispatch n payload st = Some (r, st') \<longrightarrow>
      set (loop_entered (new_events st st')) \<subseteq> set (map fst (payloadables st)))
 \<and> (isDispatching st \<longrightarrow> register payloadable st = (tok, st1) \<longrightarrow> \<not> truthy (isPending st) tok \<longrightarrow>
      waitFor (Suc (Suc n)) [Subscriber tok] st1 =
        (case run n (payloadable (pendingPayload st))
                (st1\<lparr> isPending := (isPending st)(tok \<mapsto> True),
                      trace := trace st @ [Enter FromWaitFor tok] \<rparr>) of
           None \<Rightarrow> None
         | Some (Inl e, st2) \<Rightarrow> Some (Inl e, st2)
         | Some (Inr u, st2) \<Rightarrow>
             Some (Inr (), st2\<lparr> isHandled := (isHandled st2)(tok \<mapsto> True),
                                trace := trace st2 @ [Leave tok] \<rparr>)))"
proof (intro conjI impI)
  assume "\<not> isDispatching st" and d: "dispatch n payload st = Some (r, st')"
  then have nd: "\<not> dispatching st" by (simp add: isDispatching_def)
  from nd d obtain s where
    p: "path (set (map fst (payloadables st))) (startDispatching payload st) s"
    and ne: "new_events st st' = new_events (startDispatching payload st) s"
    by (rule dispatch_round)
  from p have "seg_ok (set (map fst (payloadables st))) (startDispatching payload st) s"
    by (rule path_seg_ok)
  then show "set (loop_entered (new_events st st')) \<subseteq> set (map fst (payloadables st))"
    unfolding ne by (rule seg_ok_loop)
next
  assume d: "isDispatching st" and reg: "register payloadable st = (tok, st1)"
    and np: "\<not> truthy (isPending st) tok"
  from reg have st1: "st1 = st\<lparr> lastID := increment (lastID st),
      payloadables := AList.update tok payloadable (payloadables st) \<rparr>"
    by (auto simp: register_def Let_def)
  have own: "map_of (payloadables st1) tok = Some payloadable"
    by (simp add: st1 update_conv')
  have "dispatching st1" "\<not> truthy (isPending st1) tok" "pendingPayload st1 = pendingPayload st"
    "isPending st1 = isPending st" "trace st1 = trace st"
    using d np by (simp_all add: st1 isDispatching_def)
  then show "waitFor (Suc (Suc n)) [Subscriber tok] st1 =
        (case run n (payloadable (pendingPayload st))
                (st1\<lparr> isPending := (isPending st)(tok \<mapsto> True),
                      trace := trace st @ [Enter FromWaitFor tok] \<rparr>) of
           None \<Rightarrow> None
         | Some (Inl e, st2) \<Rightarrow> Some (Inl e, st2)
         | Some (Inr u, st2) \<Rightarrow>
             Some (Inr (), st2\<lparr> isHandled := (isHandled st2)(tok \<mapsto> True),
                                trace := trace st2 @ [Leave tok] \<rparr>))"
    using waitFor_invokes[of st1 tok payloadable n] own by simp
qed

text \<open>
  The claim as stated fails: the only subscriber registers a second one in its callback
  and waits for it, and the second one's callback runs in that very round, with the
  round's payload \<open>hello\<close>.
\<close>

theorem late_registration_counterexample:
  "map fst (payloadables (snd (register registrar new_dispatcher))) = [''ID_1'']
 \<and> dispatch 8 ''hello'' (snd (register registrar new_dispatcher)) \<noteq> None
 \<and> fst (the (dispatch 8 ''hello'' (snd (register registrar new_dispatcher)))) = Inr ()
 \<and> trace (snd (the (dispatch 8 ''hello'' (snd (register registrar new_dispatcher))))) =
     [Enter FromDispatch ''ID_1'', Enter FromWaitFor ''ID_2'', Did ''hello'',
      Leave ''ID_2'', Leave ''ID_1'']"
  by (simp add: engine registrar_def echo_def)

theorem late_registration_witness:
  "\<not> isDispatching (snd (register registrar new_dispatcher))
 \<and> dispatch 8 ''hello'' (snd (register registrar new_dispatcher)) \<noteq> None
 \<and> set (loop_entered (new_events (snd (register registrar new_dispatcher))
       (snd (the (dispatch 8 ''hello'' (snd (register registrar new_dispatcher)))))))
     \<subseteq> set (map fst (payloadables (snd (register registrar new_dispatcher))))
 \<and> loop_entered (new_events (snd (register registrar new_dispatcher))
       (snd (the (dispatch 8 ''hello'' (snd (register registrar new_dispatcher)))))) = [''ID_1'']
 \<and> isDispatching (startDispatching ''hello'' new_dispatcher)
 \<and> fst (register echo (startDispatching ''hello'' new_dispatcher)) = ''ID_1''
 \<and> \<not> truthy (isPending (startDispatching ''hello'' new_dispatcher)) ''ID_1''
 \<and> trace (snd (the (waitFor 4 [Subscriber ''ID_1'']
       (snd (register echo (startDispatching ''hello'' new_dispatcher)))))) =
     [Enter FromWaitFor ''ID_1'', Did ''hello'', Leave ''ID_1'']"
proof -
  let ?st = "snd (register registrar new_dispatcher)"
  let ?d = "dispatch 8 ''hello'' ?st"
  have h1: "\<not> isDispatching ?st" by (simp add: engine)
  have h2: "?d \<noteq> None" by (simp add: engine registrar_def echo_def)
  then have h3: "?d = Some (fst (the ?d), snd (the ?d))" by auto
  have c: "set (loop_entered (new_events ?st (snd (the ?d)))) \<subseteq> set (map fst (payloadables ?st))"
    using late_registration [of ?st 8 "''hello''" "fst (the ?d)" "snd (the ?d)"] h1 h3 by blast
  have e: "loop_entered (new_events ?st (snd (the ?d))) = [''ID_1'']"
    by (simp add: engine registrar_def echo_def new_events_def)
  let ?s = "startDispatching ''hello'' (new_dispatcher :: string dispatcher)"
  let ?s1 = "snd (register echo ?s)"
  have g1: "isDispatching ?s" by (simp add: engine)
  have g2: "register echo ?s = (''ID_1'', ?s1)" by (simp add: engine)
  have g3: "\<not> truthy (isPending ?s) ''ID_1''" by (simp add: engine)
  let ?rhs = "case run 2 (echo (pendingPayload ?s))
                (?s1\<lparr> isPending := (isPending ?s)(''ID_1'' \<mapsto> True),
                      trace := trace ?s @ [Enter FromWaitFor ''ID_1''] \<rparr>) of
           None \<Rightarrow> None
         | Some (Inl e, st2) \<Rightarrow> Some (Inl e, st2)
         | Some (Inr u, st2) \<Rightarrow>
             Some (Inr (), st2\<lparr> isHandled := (isHandled st2)(''ID_1'' \<mapsto> True),
                                trace := trace st2 @ [Leave ''ID_1''] \<rparr>)"
  have eq1: "waitFor (Suc (Suc 2)) [Subscriber ''ID_1''] ?s1 = ?rhs"
    using late_registration [where st = ?s and n = 2 and payloadable = echo
        and tok = "''ID_1''" and ?st1.0 = ?s1] g1 g2 g3 by blast
  have n3: "Suc (Suc 2) = (4::nat)" by simp
  have eq2: "waitFor 4 [Subscriber ''ID_1''] ?s1 = ?rhs"
    using eq1 unfolding n3 .
  have ev: "trace (snd (the ?rhs)) = [Enter FromWaitFor ''ID_1'', Did ''hello'', Leave ''ID_1'']"
    by (simp add: engine echo_def)
  have w: "trace (snd (the (waitFor 4 [Subscriber ''ID_1''] ?s1))) =
     [Enter FromWaitFor ''ID_1'', Did ''hello'', Leave ''ID_1'']"
    unfolding eq2 by (rule ev)
  have g4: "fst (register echo ?s) = ''ID_1''" by (simp add: engine)
  from h1 h2 c e g1 g4 g3 w show ?thesis by blast
qed

section \<open>Unregistering what is not registered\<close>

text \<open>
  For a key that is neither an own property of the registry nor a property of
  \<open>Object.prototype\<close> (every string of the form \<open>register\<close> issues is such a key),
  \<open>unregister\<close> raises "does not map to a registered callback" and changes nothing, also
  when the key has just been unregistered.
\<close>

lemma unregister_unknown:
  "map_of (payloadables st) tok = None \<Longrightarrow> tok \<notin> set Object_prototype \<Longrightarrow>
   unregister tok st = (Inl (UnknownSubscriber tok), st)"
  by (simp add: unregister_def has_payloadable_def)

lemma map_of_delete_same: "map_of (AList.delete k al) k = None"
  by (simp add: delete_conv')

lemma unregister_twice:
  "tok \<notin> set Object_prototype \<Longrightarrow> unregister tok st = (Inr (), st') \<Longrightarrow>
   unregister tok st' = (Inl (UnknownSubscriber tok), st')"
  by (auto simp: unregister_def has_payloadable_def delete_conv' split: if_splits)

text \<open>
  Claim C9. The test of \<open>unregister\<close> is \<open>!this._payloadables[id]\<close>, a read that also
  finds what every object inherits. For the key \<open>toString\<close>, never issued by any engine
  and not in the registry, \<open>unregister\<close> returns normally instead of raising.
\<close>

theorem unregister_inherited_key:
  "unregister ''toString'' (new_dispatcher :: 'p dispatcher) = (Inr (), new_dispatcher)"
  by (simp add: engine)

section \<open>What waitFor accepts\<close>
lemma dispatchTokens_Inl: "dispatchTokens args = Inl e \<Longrightarrow> e = TypeError \<and> Nullish \<in> set args"
proof (induction args)
  case Nil
  then show ?case by simp
next
  case (Cons a args)
  then show ?case by (cases a) (auto split: sum.splits)
qed

lemma dispatchTokens_Inr: "dispatchTokens args = Inr ids \<Longrightarrow> Nullish \<notin> set args"
proof (induction args arbitrary: ids)
  case Nil
  then show ?case by simp
next
  case (Cons a args)
  then show ?case by (cases a) (auto split: sum.splits)
qed

lemma well_formed_undefined:
  assumes "well_formed st"
  shows "\<not> truthy (isPending st) ''undefined''" and "\<not> has_payloadable st ''undefined''"
proof -
  have n: "\<not> is_token ''undefined''" by (rule is_token_not_undefined)
  have i: "''undefined'' \<notin> set Object_prototype" by (simp add: Object_prototype_def)
  have "isPending st ''undefined'' = None" using assms n by (auto simp: well_formed_def)
  then show "\<not> truthy (isPending st) ''undefined''" using i by (simp add: truthy_def)
  have "''undefined'' \<notin> fst ` set (payloadables st)" using assms n by (auto simp: well_formed_def)
  then have "map_of (payloadables st) ''undefined'' = None" by (simp add: map_of_eq_None_iff)
  then show "\<not> has_payloadable st ''undefined''" using i by (simp add: has_payloadable_def)
qed

text \<open>
  Claim C10. \<open>waitFor\<close> reads \<open>dispatchToken\<close> of each argument. A raw token string has
  no such property: in every well-formed engine state in which a round is active, a
  \<open>waitFor\<close> whose first argument is a string raises the "does not map to a registered
  callback" error for the key \<open>undefined\<close> (a TypeError when a later argument is
  \<open>null\<close> or \<open>undefined\<close>), whatever the string, and leaves the state unchanged: the
  subscriber the string names is not invoked. The witness contrasts it with the subscriber
  object, whose callback is invoked.
\<close>

theorem waitFor_raw_token:
  assumes "well_formed st" and "isDispatching st"
  shows "waitFor (Suc n) (RawString t # args) st =
           Some (Inl (if Nullish \<in> set args then TypeError else UnknownSubscriber ''undefined''), st)"
proof (cases "dispatchTokens args")
  case (Inl e)
  then show ?thesis using dispatchTokens_Inl[OF Inl] by simp
next
  case (Inr ids)
  then show ?thesis
    using dispatchTokens_Inr[OF Inr] assms well_formed_undefined[OF assms(1)]
    by (simp add: isDispatching_def)
qed

theorem waitFor_raw_token_witness:
  "well_formed (startDispatching ''p'' (snd (register echo new_dispatcher)))
 \<and> isDispatching (startDispatching ''p'' (snd (register echo new_dispatcher)))
 \<and> map fst (payloadables (startDispatching ''p'' (snd (register echo new_dispatcher)))) = [''ID_1'']
 \<and> \<not> truthy (isPending (startDispatching ''p'' (snd (register echo new_dispatcher)))) ''ID_1''
 \<and> waitFor 1 [RawString ''ID_1''] (startDispatching ''p'' (snd (register echo new_dispatcher))) =
     Some (Inl (UnknownSubscriber ''undefined''),
           startDispatching ''p'' (snd (register echo new_dispatcher)))
 \<and> trace (snd (the (waitFor 4 [Subscriber ''ID_1'']
       (startDispatching ''p'' (snd (register echo new_dispatcher)))))) =
     [Enter FromWaitFor ''ID_1'', Did ''p'', Leave ''ID_1'']"
proof -
  let ?st = "startDispatching ''p'' (snd (register echo new_dispatcher))"
  have h1: "well_formed ?st" by (intro well_formed_startDispatching well_formed_register well_formed_new)
  have h2: "isDispatching ?st" by (simp add: engine)
  have k: "map fst (payloadables ?st) = [''ID_1'']" by (simp add: engine)
  have np: "\<not> truthy (isPending ?st) ''ID_1''" by (simp add: engine)
  have "waitFor (Suc 0) [RawString ''ID_1''] ?st =
          Some (Inl (if Nullish \<in> set [] then TypeError else UnknownSubscriber ''undefined''), ?st)"
    using h1 h2 by (rule waitFor_raw_token)
  then have c: "waitFor 1 [RawString ''ID_1''] ?st = Some (Inl (UnknownSubscriber ''undefined''), ?st)"
    by (simp del: waitFor.simps)
  have s: "trace (snd (the (waitFor 4 [Subscriber ''ID_1''] ?st))) =
     [Enter FromWaitFor ''ID_1'', Did ''p'', Leave ''ID_1'']"
    by (simp add: engine echo_def)
  from h1 h2 k np c s show ?thesis by blast
qed

section \<open>Tokens are issued once\<close>

lemma lastID_unregister [simp]: "lastID (snd (unregister tok st)) = lastID st"
  by (simp add: unregister_def)

lemma register_result:
  "register payloadable st = (tok, st') \<Longrightarrow>
   tok = Prefix @ decimal (lastID st) \<and> lastID st' = increment (lastID st)"
  by (auto simp: register_def Let_def)

lemma issue_range:
  "lastID st + registrations ops \<le> 2 ^ 53 + 1 \<Longrightarrow>
   set (issue ops st) \<subseteq> (\<lambda>k. Prefix @ decimal k) ` {lastID st ..< lastID st + registrations ops}
   \<and> distinct (issue ops st)"
proof (induction ops arbitrary: st)
  case Nil
  then show ?case by simp
next
  case (Cons x ops)
  show ?case
  proof (cases x)
    case (Unreg tok)
    then show ?thesis using Cons.IH[of "snd (unregister tok st)"] Cons.prems by simp
  next
    case (Reg payloadable)
    obtain tok st' where r: "register payloadable st = (tok, st')" by (cases "register payloadable st")
    have tok: "tok = Prefix @ decimal (lastID st)" and inc: "lastID st' = increment (lastID st)"
      using register_result[OF r] by simp_all
    have bound: "lastID st + registrations ops \<le> 2 ^ 53" using Cons.prems Reg by simp
    have l: "lastID st < 2 ^ 53 \<and> lastID st' = Suc (lastID st) \<or> registrations ops = 0 \<and> lastID st' = lastID st"
      using bound inc by (auto simp: increment_def)
    then have "lastID st' + registrations ops \<le> 2 ^ 53 + 1" using bound by auto
    from Cons.IH[OF this]
    have sub: "set (issue ops st') \<subseteq> (\<lambda>k. Prefix @ decimal k) ` {lastID st' ..< lastID st' + registrations ops}"
      and dis: "distinct (issue ops st')" by simp_all
    have fresh: "tok \<notin> set (issue ops st')"
    proof
      assume "tok \<in> set (issue ops st')"
      with sub obtain k where "tok = Prefix @ decimal k" and k: "lastID st' \<le> k" "k < lastID st' + registrations ops"
        by auto
      with tok have "decimal (lastID st) = decimal k" by simp
      then have "lastID st = k" by (rule decimal_inj)
      with k l show False by auto
    qed
    have "{lastID st' ..< lastID st' + registrations ops} \<subseteq> {lastID st ..< lastID st + registrations (x # ops)}"
      using l Reg by auto
    with sub have "set (issue ops st') \<subseteq> (\<lambda>k. Prefix @ decimal k) ` {lastID st ..< lastID st + registrations (x # ops)}"
      by blast
    moreover have "lastID st \<in> {lastID st ..< lastID st + registrations (x # ops)}"
      using Reg by simp
    then have "tok \<in> (\<lambda>k. Prefix @ decimal k) ` {lastID st ..< lastID st + registrations (x # ops)}"
      unfolding tok by (rule imageI)
    ultimately show ?thesis using Reg r dis fresh by simp
  qed
qed

text \<open>
  Claim C7, as the code has it. On a fresh engine, for every sequence of \<open>register\<close> and
  \<open>unregister\<close> calls with at most \<open>2^53\<close> calls of \<open>register\<close>, the tokens returned are
  pairwise distinct, whatever is unregistered in between.
\<close>

theorem tokens_distinct:
  assumes "registrations ops \<le> 2 ^ 53"
  shows "distinct (issue ops new_dispatcher)"
proof -
  have "lastID (new_dispatcher :: 'a dispatcher) + registrations ops \<le> 2 ^ 53 + 1"
    using assms by (simp add: new_dispatcher_def)
  then have "set (issue ops (new_dispatcher :: 'a dispatcher))
         \<subseteq> (\<lambda>k. Prefix @ decimal k) `
           {lastID (new_dispatcher :: 'a dispatcher) ..< lastID (new_dispatcher :: 'a dispatcher) + registrations ops}
       \<and> distinct (issue ops (new_dispatcher :: 'a dispatcher))"
    by (rule issue_range)
  then show ?thesis by (rule conjunct2)
qed

theorem tokens_distinct_witness:
  "registrations ([Reg noop, Unreg ''ID_1'', Reg noop, Unreg ''ID_7'', Reg noop] :: nat op list)
     \<le> 2 ^ 53
 \<and> distinct (issue [Reg noop, Unreg ''ID_1'', Reg noop, Unreg ''ID_7'', Reg noop]
       (new_dispatcher :: nat dispatcher))
 \<and> issue [Reg noop, Unreg ''ID_1'', Reg noop, Unreg ''ID_7'', Reg noop]
       (new_dispatcher :: nat dispatcher) = [''ID_1'', ''ID_2'', ''ID_3'']"
proof -
  let ?ops = "[Reg noop, Unreg ''ID_1'', Reg noop, Unreg ''ID_7'', Reg noop] :: nat op list"
  have "registrations ?ops = 3" by simp
  then have h: "registrations ?ops \<le> 2 ^ 53" by simp
  have c: "distinct (issue ?ops new_dispatcher)" using h by (rule tokens_distinct)
  have e: "issue ?ops new_dispatcher = [''ID_1'', ''ID_2'', ''ID_3'']" by (simp add: engine)
  from h c e show ?thesis by blast
qed

lemma issue_replicate:
  "lastID st \<le> 2 ^ 53 \<Longrightarrow>
   issue (replicate k (Reg payloadable)) st =
   map (\<lambda>i. Prefix @ decimal (min (lastID st + i) (2 ^ 53))) [0..<k]"
proof (induction k arbitrary: st)
  case 0
  show ?case by simp
next
  case (Suc k)
  obtain tok st' where r: "register payloadable st = (tok, st')" by (cases "register payloadable st")
  have tok: "tok = Prefix @ decimal (lastID st)" and l: "lastID st' = increment (lastID st)"
    using register_result[OF r] by simp_all
  have l': "lastID st' = min (lastID st + 1) (2 ^ 53)" using l Suc.prems by (simp add: increment_def)
  then have "lastID st' \<le> 2 ^ 53" by simp
  from Suc.IH[OF this]
  have "issue (replicate k (Reg payloadable)) st' =
        map (\<lambda>i. Prefix @ decimal (min (lastID st + Suc i) (2 ^ 53))) [0..<k]"
    unfolding l' by (simp add: min_def)
  then have "issue (replicate (Suc k) (Reg payloadable)) st =
        (Prefix @ decimal (lastID st)) # map ((\<lambda>i. Prefix @ decimal (min (lastID st + i) (2 ^ 53))) \<circ> Suc) [0..<k]"
    using r tok by (simp add: comp_def)
  also have "\<dots> = map (\<lambda>i. Prefix @ decimal (min (lastID st + i) (2 ^ 53))) (0 # map Suc [0..<k])"
    using Suc.prems by simp
  also have "0 # map Suc [0..<k] = [0..<Suc k]"
    by (simp only: map_Suc_upt upt_conv_Cons[of 0 "Suc k"] zero_less_Suc)
  finally show ?case .
qed

text \<open>
  The claim as stated fails: \<open>_lastID\<close> is a Number, and \<open>_lastID++\<close> leaves it at
  \<open>2^53\<close> once it is there, so call \<open>2^53 + 1\<close> of \<open>register\<close> returns the token of call
  \<open>2^53\<close> again.
\<close>

theorem tokens_repeat:
  "\<not> distinct (issue (replicate (2 ^ 53 + 1) (Reg noop)) new_dispatcher)"
proof -
  define k :: nat where "k = 2 ^ 53"
  define xs where "xs = issue (replicate (k + 1) (Reg noop)) (new_dispatcher :: 'a dispatcher)"
  have one: "lastID (new_dispatcher :: 'a dispatcher) = 1" by (simp add: new_dispatcher_def)
  have kpos: "0 < k" by (simp add: k_def)
  have "lastID (new_dispatcher :: 'a dispatcher) \<le> 2 ^ 53" unfolding one by simp
  then have "issue (replicate (k + 1) (Reg noop)) (new_dispatcher :: 'a dispatcher) =
    map (\<lambda>i. Prefix @ decimal (min (lastID (new_dispatcher :: 'a dispatcher) + i) (2 ^ 53))) [0..<k + 1]"
    by (rule issue_replicate)
  then have xs: "xs = map (\<lambda>i. Prefix @ decimal (min (1 + i) k)) [0..<k + 1]"
    unfolding xs_def one k_def .
  have len: "length xs = k + 1" unfolding xs by (simp only: length_map length_upt diff_zero)
  have "k - 1 < k + 1 - 0" using kpos by simp
  then have "xs ! (k - 1) = Prefix @ decimal (min (1 + (0 + (k - 1))) k)"
    unfolding xs by (rule nth_map_upt)
  then have a: "xs ! (k - 1) = Prefix @ decimal k" using kpos by simp
  have "k < k + 1 - 0" by simp
  then have "xs ! k = Prefix @ decimal (min (1 + (0 + k)) k)"
    unfolding xs by (rule nth_map_upt)
  then have b: "xs ! k = Prefix @ decimal k" by simp
  have i: "k - 1 < length xs" "k < length xs" "k - 1 \<noteq> k" using kpos len by simp_all
  have "\<not> distinct xs"
  proof
    assume "distinct xs"
    then have "xs ! (k - 1) = xs ! k \<longleftrightarrow> k - 1 = k" using i(1,2) by (rule nth_eq_iff_index_eq)
    with a b i(3) show False by simp
  qed
  then show ?thesis unfolding xs_def k_def .
qed

section \<open>Errors raised by callbacks\<close>

lemma waitFor_loop_append:
  "waitFor_loop n (pre @ rest) st =
     (case waitFor_loop n pre st of
        None \<Rightarrow> None
      | Some (Inl e, s) \<Rightarrow> Some (Inl e, s)
      | Some (Inr u, s) \<Rightarrow> waitFor_loop (n - length pre) rest s)"
proof (induction pre arbitrary: n st)
  case Nil
  show ?case by simp
next
  case (Cons k pre)
  show ?case
  proof (cases n)
    case 0
    then show ?thesis by simp
  next
    case (Suc m)
    show ?thesis
      unfolding Suc
      by (simp add: Cons.IH[of m] Let_def split: option.splits sum.splits prod.splits
          del: invokePayloadable.simps)
  qed
qed

lemma dispatchTokens_append:
  "dispatchTokens pre = Inr ids \<Longrightarrow> dispatchTokens post = Inr ids' \<Longrightarrow>
   dispatchTokens (pre @ post) = Inr (ids @ ids') \<and> length ids = length pre"
proof (induction pre arbitrary: ids)
  case Nil
  then show ?case by simp
next
  case (Cons a pre)
  then show ?case by (cases a) (auto split: sum.splits)
qed

lemma dispatch_loop_raises:
  "dispatch_loop m ks st = Some (Inl e, s2) \<Longrightarrow>
   \<exists>pre tok post s1. ks = pre @ tok # post
     \<and> dispatch_loop m pre st = Some (Inr (), s1)
     \<and> map_of (payloadables s1) tok \<noteq> None \<and> \<not> truthy (isPending s1) tok
     \<and> invokePayloadable (m - Suc (length pre)) FromDispatch tok s1 = Some (Inl e, s2)"
proof (induction ks arbitrary: m st)
  case Nil
  then show ?case by simp
next
  case (Cons k ks)
  from Cons.prems obtain m' where m: "m = Suc m'" by (cases m) auto
  show ?case
  proof (cases "map_of (payloadables st) k = None \<or> truthy (isPending st) k")
    case True
    then have "dispatch_loop m' ks st = Some (Inl e, s2)"
      using Cons.prems unfolding m by (auto split: if_splits)
    from Cons.IH[OF this] obtain pre tok post s1 where
      a: "ks = pre @ tok # post" "dispatch_loop m' pre st = Some (Inr (), s1)"
         "map_of (payloadables s1) tok \<noteq> None" "\<not> truthy (isPending s1) tok"
         "invokePayloadable (m' - Suc (length pre)) FromDispatch tok s1 = Some (Inl e, s2)"
      by blast
    have "dispatch_loop m (k # pre) st = Some (Inr (), s1)" using True a(2) unfolding m by auto
    moreover have "k # ks = (k # pre) @ tok # post" using a(1) by simp
    moreover have "m - Suc (length (k # pre)) = m' - Suc (length pre)" unfolding m by simp
    ultimately show ?thesis using a(3,4,5) by metis
  next
    case False
    then have own: "map_of (payloadables st) k \<noteq> None" and np: "\<not> truthy (isPending st) k" by auto
    show ?thesis
    proof (cases "invokePayloadable m' FromDispatch k st")
      case None
      then show ?thesis using Cons.prems own np unfolding m by (simp del: invokePayloadable.simps)
    next
      case (Some y)
      obtain r st1 where y: "y = (r, st1)" by (cases y)
      show ?thesis
      proof (cases r)
        case (Inl e')
        then have "e' = e" "st1 = s2"
          using Cons.prems own np Some y unfolding m by (simp_all del: invokePayloadable.simps)
        then have "invokePayloadable (m - Suc (length ([] :: string list))) FromDispatch k st = Some (Inl e, s2)"
          using Some y Inl unfolding m by simp
        moreover have "dispatch_loop m [] st = Some (Inr (), st)" by simp
        moreover have "k # ks = [] @ k # ks" by simp
        ultimately show ?thesis using own np by blast
      next
        case (Inr u)
        then have "dispatch_loop m' ks st1 = Some (Inl e, s2)"
          using Cons.prems own np Some y unfolding m by (simp del: invokePayloadable.simps)
        from Cons.IH[OF this] obtain pre tok post s1 where
          a: "ks = pre @ tok # post" "dispatch_loop m' pre st1 = Some (Inr (), s1)"
             "map_of (payloadables s1) tok \<noteq> None" "\<not> truthy (isPending s1) tok"
             "invokePayloadable (m' - Suc (length pre)) FromDispatch tok s1 = Some (Inl e, s2)"
          by blast
        have "dispatch_loop m (k # pre) st = Some (Inr (), s1)"
          using own np Some y Inr a(2) unfolding m by (auto simp del: invokePayloadable.simps)
        moreover have "k # ks = (k # pre) @ tok # post" using a(1) by simp
        moreover have "m - Suc (length (k # pre)) = m' - Suc (length pre)" unfolding m by simp
        ultimately show ?thesis using a(3,4,5) by metis
      qed
    qed
  qed
qed

text \<open>
  Claim C8, as the code has it. (1) Let the loop of \<open>dispatch\<close> have gone through the
  tokens \<open>pre\<close> and reached state \<open>s1\<close>, let the next token in the iteration be registered
  and not pending there, and let its callback raise \<open>e\<close> in state \<open>s2\<close>: an error of its
  own, or one that a \<open>waitFor\<close> handed to it and that it did not catch. Then \<open>dispatch\<close>
  raises that same \<open>e\<close>, and the state it leaves is \<open>s2\<close> after \<open>_stopDispatching\<close>:
  nothing ran after the callback raised, so no subscriber later in the iteration was
  invoked. (2) Conversely, every error that leaves a \<open>dispatch\<close> call which began a round
  was raised in this way, by a callback that the loop called. (3) When the callback that
  raises \<open>e\<close> was reached through \<open>waitFor\<close>, as any of its targets and after the targets
  before it were dealt with, \<open>waitFor\<close> raises \<open>e\<close> to the callback that called it, in
  the state in which \<open>e\<close> was raised and without looking at the later targets. That
  callback goes on with \<open>e\<close> in hand; if it does not catch, it raises \<open>e\<close> itself. The
  round is aborted only then: a callback that catches the error lets the round go on.
\<close>

theorem callback_error_propagates:
  "(\<not> isDispatching st \<longrightarrow>
    map fst (payloadables st) = pre @ tok # post \<longrightarrow>
    dispatch_loop (length pre + Suc (Suc n)) pre (startDispatching payload st) = Some (Inr (), s1) \<longrightarrow>
    map_of (payloadables s1) tok = Some payloadable \<longrightarrow> \<not> truthy (isPending s1) tok \<longrightarrow>
    run n (payloadable (pendingPayload s1))
      (s1\<lparr> isPending := (isPending s1)(tok \<mapsto> True), trace := trace s1 @ [Enter FromDispatch tok] \<rparr>)
      = Some (Inl e, s2) \<longrightarrow>
    dispatch (length pre + Suc (Suc n)) payload st = Some (Inl e, stopDispatching s2))
 \<and> (\<not> isDispatching st \<longrightarrow> dispatch m payload st = Some (Inl e, st') \<longrightarrow>
    (\<exists>pre tok post payloadable s1 s2 j. map fst (payloadables st) = pre @ tok # post
       \<and> dispatch_loop m pre (startDispatching payload st) = Some (Inr (), s1)
       \<and> map_of (payloadables s1) tok = Some payloadable \<and> \<not> truthy (isPending s1) tok
       \<and> run j (payloadable (pendingPayload s1))
             (s1\<lparr> isPending := (isPending s1)(tok \<mapsto> True), trace := trace s1 @ [Enter FromDispatch tok] \<rparr>)
           = Some (Inl e, s2)
       \<and> st' = stopDispatching s2))
 \<and> (isDispatching st \<longrightarrow>
    dispatchTokens before = Inr ids \<longrightarrow> Nullish \<notin> set rest \<longrightarrow>
    waitFor_loop (length ids + Suc (Suc n)) ids st = Some (Inr (), s1) \<longrightarrow>
    map_of (payloadables s1) tok = Some payloadable \<longrightarrow> \<not> truthy (isPending s1) tok \<longrightarrow>
    run n (payloadable (pendingPayload s1))
      (s1\<lparr> isPending := (isPending s1)(tok \<mapsto> True), trace := trace s1 @ [Enter FromWaitFor tok] \<rparr>)
      = Some (Inl e, s2) \<longrightarrow>
      waitFor (length ids + Suc (Suc n)) (before @ Subscriber tok # rest) st = Some (Inl e, s2)
    \<and> run (Suc (length ids + Suc (Suc n))) (WaitFor (before @ Subscriber tok # rest) k) st
        = run (length ids + Suc (Suc n)) (k (Inl e)) s2
    \<and> run (Suc (length ids + Suc (Suc n))) (WaitFor (before @ Subscriber tok # rest) (uncaught k')) st
        = Some (Inl e, s2))"
proof (intro conjI impI)
  assume nd: "\<not> isDispatching st"
    and keys: "map fst (payloadables st) = pre @ tok # post"
    and pre: "dispatch_loop (length pre + Suc (Suc n)) pre (startDispatching payload st) = Some (Inr (), s1)"
    and own: "map_of (payloadables s1) tok = Some payloadable"
    and np: "\<not> truthy (isPending s1) tok"
    and run: "run n (payloadable (pendingPayload s1))
      (s1\<lparr> isPending := (isPending s1)(tok \<mapsto> True), trace := trace s1 @ [Enter FromDispatch tok] \<rparr>)
      = Some (Inl e, s2)"
  have inv: "invokePayloadable (Suc n) FromDispatch tok s1 = Some (Inl e, s2)"
    using own run by (rule invoke_raises)
  have "dispatch_loop (Suc (Suc n)) (tok # post) s1 = Some (Inl e, s2)"
    using own np inv by (simp del: invokePayloadable.simps)
  then have "dispatch_loop (length pre + Suc (Suc n)) (pre @ tok # post) (startDispatching payload st)
      = Some (Inl e, s2)"
    using pre by (simp add: dispatch_loop_append del: dispatch_loop.simps)
  then show "dispatch (length pre + Suc (Suc n)) payload st = Some (Inl e, stopDispatching s2)"
    using nd keys by (simp add: isDispatching_def del: dispatch_loop.simps)
next
  assume nd: "\<not> isDispatching st" and d: "dispatch m payload st = Some (Inl e, st')"
  from nd d obtain s2 where
    l: "dispatch_loop m (map fst (payloadables st)) (startDispatching payload st) = Some (Inl e, s2)"
    and st': "st' = stopDispatching s2"
    by (auto simp: isDispatching_def split: option.splits)
  from dispatch_loop_raises[OF l] obtain pre tok post s1 where
    a: "map fst (payloadables st) = pre @ tok # post"
       "dispatch_loop m pre (startDispatching payload st) = Some (Inr (), s1)"
       "map_of (payloadables s1) tok \<noteq> None" "\<not> truthy (isPending s1) tok"
       "invokePayloadable (m - Suc (length pre)) FromDispatch tok s1 = Some (Inl e, s2)"
    by blast
  from a(3) obtain payloadable where own: "map_of (payloadables s1) tok = Some payloadable" by auto
  from a(5) obtain j where j: "m - Suc (length pre) = Suc j" by (cases "m - Suc (length pre)") auto
  from invoke_unfold[OF own a(5)[unfolded j]]
  have "run j (payloadable (pendingPayload s1))
             (s1\<lparr> isPending := (isPending s1)(tok \<mapsto> True), trace := trace s1 @ [Enter FromDispatch tok] \<rparr>)
           = Some (Inl e, s2)"
    by auto
  with a(1,2,4) own st'
  show "\<exists>pre tok post payloadable s1 s2 j. map fst (payloadables st) = pre @ tok # post
       \<and> dispatch_loop m pre (startDispatching payload st) = Some (Inr (), s1)
       \<and> map_of (payloadables s1) tok = Some payloadable \<and> \<not> truthy (isPending s1) tok
       \<and> run j (payloadable (pendingPayload s1))
             (s1\<lparr> isPending := (isPending s1)(tok \<mapsto> True), trace := trace s1 @ [Enter FromDispatch tok] \<rparr>)
           = Some (Inl e, s2)
       \<and> st' = stopDispatching s2"
    by blast
next
  assume d: "isDispatching st"
    and before: "dispatchTokens before = Inr ids"
    and rest: "Nullish \<notin> set rest"
    and pre: "waitFor_loop (length ids + Suc (Suc n)) ids st = Some (Inr (), s1)"
    and own: "map_of (payloadables s1) tok = Some payloadable"
    and np: "\<not> truthy (isPending s1) tok"
    and run: "run n (payloadable (pendingPayload s1))
      (s1\<lparr> isPending := (isPending s1)(tok \<mapsto> True), trace := trace s1 @ [Enter FromWaitFor tok] \<rparr>)
      = Some (Inl e, s2)"
  have inv: "invokePayloadable (Suc n) FromWaitFor tok s1 = Some (Inl e, s2)"
    using own run by (rule invoke_raises)
  obtain ids' where ids': "dispatchTokens rest = Inr ids'"
    using rest dispatchTokens_Inl by (cases "dispatchTokens rest") auto
  then have "dispatchTokens (Subscriber tok # rest) = Inr (Some tok # ids')" by simp
  with before have all: "dispatchTokens (before @ Subscriber tok # rest) = Inr (ids @ Some tok # ids')"
    by (simp add: dispatchTokens_append del: dispatchTokens.simps)
  have h: "has_payloadable s1 tok" using own by (simp add: has_payloadable_def)
  have "waitFor_loop (Suc (Suc n)) (Some tok # ids') s1 = Some (Inl e, s2)"
    using np h inv by (simp add: Let_def del: invokePayloadable.simps)
  then have "waitFor_loop (length ids + Suc (Suc n)) (ids @ Some tok # ids') st = Some (Inl e, s2)"
    using pre by (simp add: waitFor_loop_append del: waitFor_loop.simps)
  then show w: "waitFor (length ids + Suc (Suc n)) (before @ Subscriber tok # rest) st = Some (Inl e, s2)"
    using d all by (simp add: isDispatching_def del: waitFor_loop.simps dispatchTokens.simps)
  show "run (Suc (length ids + Suc (Suc n))) (WaitFor (before @ Subscriber tok # rest) k) st
        = run (length ids + Suc (Suc n)) (k (Inl e)) s2"
    using w by (rule run_WaitFor_result)
  show "run (Suc (length ids + Suc (Suc n))) (WaitFor (before @ Subscriber tok # rest) (uncaught k')) st
        = Some (Inl e, s2)"
    using run_WaitFor_result[OF w, of "uncaught k'"] by (simp add: uncaught_def run_Throw)
qed

theorem callback_error_propagates_witness:
  "\<not> isDispatching (snd (register echo (snd (register thrower (snd (register echo new_dispatcher))))))
 \<and> map fst (payloadables (snd (register echo (snd (register thrower (snd (register echo new_dispatcher)))))))
     = [''ID_1''] @ ''ID_2'' # [''ID_3'']
 \<and> dispatch 4 ''p'' (snd (register echo (snd (register thrower (snd (register echo new_dispatcher))))))
     \<noteq> None
 \<and> fst (the (dispatch 4 ''p''
       (snd (register echo (snd (register thrower (snd (register echo new_dispatcher)))))))) =
     Inl (Thrown ''boom'')
 \<and> trace (snd (the (dispatch 4 ''p''
       (snd (register echo (snd (register thrower (snd (register echo new_dispatcher)))))))))
     = [Enter FromDispatch ''ID_1'', Did ''p'', Leave ''ID_1'', Enter FromDispatch ''ID_2'']
 \<and> (\<exists>pre tok post payloadable s1 s2 j.
       map fst (payloadables (snd (register echo (snd (register thrower (snd (register echo new_dispatcher)))))))
         = pre @ tok # post
     \<and> dispatch_loop 4 pre (startDispatching ''p''
         (snd (register echo (snd (register thrower (snd (register echo new_dispatcher)))))))
         = Some (Inr (), s1)
     \<and> map_of (payloadables s1) tok = Some payloadable
     \<and> run j (payloadable (pendingPayload s1))
           (s1\<lparr> isPending := (isPending s1)(tok \<mapsto> True), trace := trace s1 @ [Enter FromDispatch tok] \<rparr>)
         = Some (Inl (Thrown ''boom''), s2)
     \<and> snd (the (dispatch 4 ''p''
         (snd (register echo (snd (register thrower (snd (register echo new_dispatcher))))))))
         = stopDispatching s2)
 \<and> isDispatching (startDispatching ''p'' (snd (register thrower (snd (register echo new_dispatcher)))))
 \<and> fst (the (waitFor 4 [Subscriber ''ID_1'', Subscriber ''ID_2'']
       (startDispatching ''p'' (snd (register thrower (snd (register echo new_dispatcher)))))))
     = Inl (Thrown ''boom'')
 \<and> trace (snd (the (waitFor 4 [Subscriber ''ID_1'', Subscriber ''ID_2'']
       (startDispatching ''p'' (snd (register thrower (snd (register echo new_dispatcher))))))))
     = [Enter FromWaitFor ''ID_1'', Did ''p'', Leave ''ID_1'', Enter FromWaitFor ''ID_2'']
 \<and> fst (the (run 5 (WaitFor [Subscriber ''ID_1'', Subscriber ''ID_2''] (uncaught Return))
       (startDispatching ''p'' (snd (register thrower (snd (register echo new_dispatcher)))))))
     = Inl (Thrown ''boom'')"
proof -
  let ?st = "snd (register echo (snd (register thrower (snd (register echo new_dispatcher)))))"
  let ?s1 = "snd (the (dispatch_loop 4 [''ID_1''] (startDispatching ''p'' ?st)))"
  let ?s2 = "?s1\<lparr> isPending := (isPending ?s1)(''ID_2'' \<mapsto> True),
                   trace := trace ?s1 @ [Enter FromDispatch ''ID_2''] \<rparr>"
  note T = callback_error_propagates
  have h1: "\<not> isDispatching ?st" by (simp add: engine)
  have h2: "map fst (payloadables ?st) = [''ID_1''] @ ''ID_2'' # [''ID_3'']" by (simp add: engine)
  have h3: "dispatch_loop (length [''ID_1''] + Suc (Suc 1)) [''ID_1''] (startDispatching ''p'' ?st)
      = Some (Inr (), ?s1)"
    by (simp add: engine echo_def)
  have h4: "map_of (payloadables ?s1) ''ID_2'' = Some thrower" by (simp add: engine echo_def)
  have h5: "\<not> truthy (isPending ?s1) ''ID_2''" by (simp add: engine echo_def)
  have h6: "run 1 (thrower (pendingPayload ?s1)) ?s2 = Some (Inl (Thrown ''boom''), ?s2)"
    by (simp add: thrower_def)
  have c: "dispatch (length [''ID_1''] + Suc (Suc 1)) ''p'' ?st
      = Some (Inl (Thrown ''boom''), stopDispatching ?s2)"
    by (rule callback_error_propagates [where st = ?st and pre = "[''ID_1'']" and tok = "''ID_2''"
        and post = "[''ID_3'']" and n = 1 and payload = "''p''" and ?s1.0 = ?s1
        and payloadable = thrower and e = "Thrown ''boom''" and ?s2.0 = ?s2,
        THEN conjunct1, rule_format, OF h1 h2 h3 h4 h5 h6])
  have f: "length [''ID_1''] + Suc (Suc 1) = 4" by simp
  have c': "dispatch 4 ''p'' ?st = Some (Inl (Thrown ''boom''), stopDispatching ?s2)"
    using c unfolding f .
  have c1: "dispatch 4 ''p'' ?st \<noteq> None" unfolding c' by simp
  have c2: "fst (the (dispatch 4 ''p'' ?st)) = Inl (Thrown ''boom'')" unfolding c' by simp
  have "trace (stopDispatching ?s2)
     = [Enter FromDispatch ''ID_1'', Did ''p'', Leave ''ID_1'', Enter FromDispatch ''ID_2'']"
    by (simp add: engine echo_def)
  then have c3: "trace (snd (the (dispatch 4 ''p'' ?st)))
     = [Enter FromDispatch ''ID_1'', Did ''p'', Leave ''ID_1'', Enter FromDispatch ''ID_2'']"
    unfolding c' by simp
  have s: "snd (the (dispatch 4 ''p'' ?st)) = stopDispatching ?s2" unfolding c' by simp
  have "\<exists>pre tok post payloadable s1 s2 j. map fst (payloadables ?st) = pre @ tok # post
       \<and> dispatch_loop 4 pre (startDispatching ''p'' ?st) = Some (Inr (), s1)
       \<and> map_of (payloadables s1) tok = Some payloadable \<and> \<not> truthy (isPending s1) tok
       \<and> run j (payloadable (pendingPayload s1))
             (s1\<lparr> isPending := (isPending s1)(tok \<mapsto> True), trace := trace s1 @ [Enter FromDispatch tok] \<rparr>)
           = Some (Inl (Thrown ''boom''), s2)
       \<and> stopDispatching ?s2 = stopDispatching s2"
    by (rule callback_error_propagates [where st = ?st and m = 4 and payload = "''p''"
        and e = "Thrown ''boom''" and st' = "stopDispatching ?s2",
        THEN conjunct2, THEN conjunct1, rule_format, OF h1 c'])
  then have c4: "\<exists>pre tok post payloadable s1 s2 j. map fst (payloadables ?st) = pre @ tok # post
       \<and> dispatch_loop 4 pre (startDispatching ''p'' ?st) = Some (Inr (), s1)
       \<and> map_of (payloadables s1) tok = Some payloadable
       \<and> run j (payloadable (pendingPayload s1))
             (s1\<lparr> isPending := (isPending s1)(tok \<mapsto> True), trace := trace s1 @ [Enter FromDispatch tok] \<rparr>)
           = Some (Inl (Thrown ''boom''), s2)
       \<and> snd (the (dispatch 4 ''p'' ?st)) = stopDispatching s2"
    unfolding s by blast
  let ?w = "startDispatching ''p'' (snd (register thrower (snd (register echo new_dispatcher))))"
  let ?w1 = "snd (the (waitFor_loop 4 [Some ''ID_1''] ?w))"
  let ?w2 = "?w1\<lparr> isPending := (isPending ?w1)(''ID_2'' \<mapsto> True),
                   trace := trace ?w1 @ [Enter FromWaitFor ''ID_2''] \<rparr>"
  have g1: "isDispatching ?w" by (simp add: engine)
  have g2: "dispatchTokens [Subscriber ''ID_1''] = Inr [Some ''ID_1'']" by simp
  have g3: "Nullish \<notin> set []" by simp
  have g4: "waitFor_loop (length [Some ''ID_1''] + Suc (Suc 1)) [Some ''ID_1''] ?w = Some (Inr (), ?w1)"
    by (simp add: engine echo_def)
  have g5: "map_of (payloadables ?w1) ''ID_2'' = Some thrower" by (simp add: engine echo_def)
  have g6: "\<not> truthy (isPending ?w1) ''ID_2''" by (simp add: engine echo_def)
  have g7: "run 1 (thrower (pendingPayload ?w1)) ?w2 = Some (Inl (Thrown ''boom''), ?w2)"
    by (simp add: thrower_def)
  note W = callback_error_propagates [where st = ?w and before = "[Subscriber ''ID_1'']"
        and ids = "[Some ''ID_1'']" and rest = "[]" and tok = "''ID_2''" and n = 1
        and ?s1.0 = ?w1 and payloadable = thrower and e = "Thrown ''boom''" and ?s2.0 = ?w2
        and k' = Return,
        THEN conjunct2, THEN conjunct2, rule_format, OF g1 g2 g3 g4 g5 g6 g7]
  have f4: "length [Some ''ID_1''] + Suc (Suc 1) = 4"
    "[Subscriber ''ID_1''] @ Subscriber ''ID_2'' # [] = [Subscriber ''ID_1'', Subscriber ''ID_2'']"
    by simp_all
  have d: "waitFor 4 [Subscriber ''ID_1'', Subscriber ''ID_2''] ?w = Some (Inl (Thrown ''boom''), ?w2)"
    using W unfolding f4 by blast
  have e5: "(5::nat) = Suc 4" by simp
  have r: "run 5 (WaitFor [Subscriber ''ID_1'', Subscriber ''ID_2''] (uncaught Return)) ?w
      = Some (Inl (Thrown ''boom''), ?w2)"
    unfolding e5 using W unfolding f4 by blast
  have d1: "fst (the (waitFor 4 [Subscriber ''ID_1'', Subscriber ''ID_2''] ?w)) = Inl (Thrown ''boom'')"
    unfolding d by simp
  have "trace ?w2 = [Enter FromWaitFor ''ID_1'', Did ''p'', Leave ''ID_1'', Enter FromWaitFor ''ID_2'']"
    by (simp add: engine echo_def)
  then have d2: "trace (snd (the (waitFor 4 [Subscriber ''ID_1'', Subscriber ''ID_2''] ?w)))
      = [Enter FromWaitFor ''ID_1'', Did ''p'', Leave ''ID_1'', Enter FromWaitFor ''ID_2'']"
    unfolding d by simp
  have r1: "fst (the (run 5 (WaitFor [Subscriber ''ID_1'', Subscriber ''ID_2''] (uncaught Return)) ?w))
      = Inl (Thrown ''boom'')"
    unfolding r by simp
  show ?thesis
    by (insert h1 h2 c1 c2 c3 c4 g1 d1 d2 r1, intro conjI; assumption)
qed

text \<open>
  The claim as stated fails: the callback of \<open>ID_2\<close> raises and never returns, the
  callback of \<open>ID_1\<close>, which was waiting for it, catches the error, and the round is not
  aborted: \<open>ID_3\<close>, later in the iteration, is invoked and \<open>dispatch\<close> returns normally.
\<close>

theorem caught_error_round_goes_on:
  "map fst (payloadables swallowed) = [''ID_1'', ''ID_2'', ''ID_3'']
 \<and> map_of (payloadables swallowed) ''ID_2'' = Some thrower
 \<and> thrower (pendingPayload (startDispatching ''p'' swallowed)) = Throw (Thrown ''boom'')
 \<and> dispatch 8 ''p'' swallowed \<noteq> None
 \<and> fst (the (dispatch 8 ''p'' swallowed)) = Inr ()
 \<and> trace (snd (the (dispatch 8 ''p'' swallowed)))
     = [Enter FromDispatch ''ID_1'', Enter FromWaitFor ''ID_2'', Did ''a'', Leave ''ID_1'',
        Enter FromDispatch ''ID_3'', Did ''p'', Leave ''ID_3'']
 \<and> isHandled (snd (the (dispatch 8 ''p'' swallowed))) ''ID_2'' = Some False"
  by (simp add: engine thrower_def echo_def)

section \<open>The states of a token\<close>

lemma flags_ok_startDispatching: "flags_ok st \<Longrightarrow> flags_ok (startDispatching p st)"
  by (auto simp: flags_ok_def isPending_startDispatching isHandled_startDispatching split: if_splits)

lemma flags_ok_stopDispatching: "flags_ok st \<Longrightarrow> flags_ok (stopDispatching st)"
  by (simp add: flags_ok_def stopDispatching_def)

lemma run_path: "dispatching st \<Longrightarrow> run n c st = Some (r, st') \<Longrightarrow> path {} st st'"
  using sound_all by (rule sound_runD)

lemmas [engine] = two_subscribers_def round_begun_def first_entered_def just_def after_def

text \<open>
  Claim C6. (1) In a round, from its start to the return of \<open>dispatch\<close>, no token's
  callback is entered twice, and if every handled token was pending before the round, so
  it is after it. (2) While a callback runs during a round, a pending flag that is
  \<open>true\<close> stays \<open>true\<close> and so does a handled flag, handled keeps implying pending, and
  the callbacks entered meanwhile are entered once each and are callbacks of tokens that
  were not pending. (3) \<open>_invokePayloadable\<close> runs the callback in a state in which the
  token is pending, and sets the handled flag only when the callback has returned
  normally: if it raises, the state is the one the callback left. (4) The loop of
  \<open>dispatch\<close> passes over a pending token, and \<open>waitFor\<close> passes over a token that is
  pending and handled.
\<close>

theorem token_state_machine:
  "(\<not> isDispatching st \<longrightarrow> dispatch n payload st = Some (r, st') \<longrightarrow>
      distinct (entered (new_events st st')) \<and> (flags_ok st \<longrightarrow> flags_ok st'))
 \<and> (isDispatching s \<longrightarrow> run n c s = Some (r', s') \<longrightarrow>
      (\<forall>t. (isPending s t = Some True \<longrightarrow> isPending s' t = Some True)
         \<and> (isHandled s t = Some True \<longrightarrow> isHandled s' t = Some True))
    \<and> (flags_ok s \<longrightarrow> flags_ok s')
    \<and> distinct (entered (new_events s s'))
    \<and> (\<forall>t \<in> set (entered (new_events s s')). \<not> truthy (isPending s) t))
 \<and> (map_of (payloadables s) tok = Some payloadable \<longrightarrow>
    invokePayloadable (Suc n) site tok s = Some (r', s') \<longrightarrow>
      (\<exists>s2. run n (payloadable (pendingPayload s))
               (s\<lparr> isPending := (isPending s)(tok \<mapsto> True), trace := trace s @ [Enter site tok] \<rparr>)
             = Some (r', s2)
           \<and> (case r' of
                 Inl e \<Rightarrow> s' = s2
               | Inr u \<Rightarrow> s' = s2\<lparr> isHandled := (isHandled s2)(tok \<mapsto> True),
                                    trace := trace s2 @ [Leave tok] \<rparr>)))
 \<and> (truthy (isPending s) tok \<longrightarrow> dispatch_loop (Suc n) (tok # ks) s = dispatch_loop n ks s)
 \<and> (truthy (isPending s) tok \<longrightarrow> truthy (isHandled s) tok \<longrightarrow>
      waitFor_loop (Suc n) (Some tok # ids) s = waitFor_loop n ids s)"
proof (intro conjI impI allI ballI)
  assume "\<not> isDispatching st" and d: "dispatch n payload st = Some (r, st')"
  then have nd: "\<not> dispatching st" by (simp add: isDispatching_def)
  from nd d obtain s0 where
    st': "st' = stopDispatching s0"
    and p: "path (set (map fst (payloadables st))) (startDispatching payload st) s0"
    and ne: "new_events st st' = new_events (startDispatching payload st) s0"
    by (rule dispatch_round)
  from p have "seg_ok (set (map fst (payloadables st))) (startDispatching payload st) s0"
    by (rule path_seg_ok)
  then show "distinct (entered (new_events st st'))" unfolding ne by (simp add: seg_ok_def)
  assume "flags_ok st"
  then have "flags_ok (startDispatching payload st)" by (rule flags_ok_startDispatching)
  with p have "flags_ok s0" by (rule path_flags_ok)
  then show "flags_ok st'" unfolding st' by (rule flags_ok_stopDispatching)
next
  fix t
  assume "isDispatching s" and "run n c s = Some (r', s')"
  then have p: "path {} s s'" by (simp add: isDispatching_def run_path)
  { assume "isPending s t = Some True"
    with p show "isPending s' t = Some True" by (rule path_pending) }
  { assume "isHandled s t = Some True"
    with p show "isHandled s' t = Some True" by (rule path_handled) }
  { assume "flags_ok s"
    with p show "flags_ok s'" by (rule path_flags_ok) }
  from p have seg: "seg_ok {} s s'" by (rule path_seg_ok)
  then show "distinct (entered (new_events s s'))" by (simp add: seg_ok_def)
  { assume "t \<in> set (entered (new_events s s'))"
    with seg show "\<not> truthy (isPending s) t" by (simp add: seg_ok_def) }
next
  assume "map_of (payloadables s) tok = Some payloadable"
    and "invokePayloadable (Suc n) site tok s = Some (r', s')"
  then show "\<exists>s2. run n (payloadable (pendingPayload s))
               (s\<lparr> isPending := (isPending s)(tok \<mapsto> True), trace := trace s @ [Enter site tok] \<rparr>)
             = Some (r', s2)
           \<and> (case r' of
                 Inl e \<Rightarrow> s' = s2
               | Inr u \<Rightarrow> s' = s2\<lparr> isHandled := (isHandled s2)(tok \<mapsto> True),
                                    trace := trace s2 @ [Leave tok] \<rparr>)"
    by (rule invoke_unfold)
next
  assume "truthy (isPending s) tok"
  then show "dispatch_loop (Suc n) (tok # ks) s = dispatch_loop n ks s" by simp
next
  assume "truthy (isPending s) tok" and "truthy (isHandled s) tok"
  then show "waitFor_loop (Suc n) (Some tok # ids) s = waitFor_loop n ids s" by (simp add: Let_def)
qed

theorem token_state_machine_witness:
  "\<not> isDispatching two_subscribers
 \<and> dispatch 8 0 two_subscribers \<noteq> None
 \<and> flags_ok two_subscribers
 \<and> distinct (entered (new_events two_subscribers (snd (the (dispatch 8 0 two_subscribers)))))
 \<and> entered (new_events two_subscribers (snd (the (dispatch 8 0 two_subscribers)))) = [''ID_1'', ''ID_2'']
 \<and> flags_ok (snd (the (dispatch 8 0 two_subscribers)))
 \<and> isDispatching first_entered
 \<and> run 5 (after ''ID_2'' ''a'' (Some 0)) first_entered \<noteq> None
 \<and> isPending first_entered ''ID_1'' = Some True
 \<and> isPending (snd (the (run 5 (after ''ID_2'' ''a'' (Some 0)) first_entered))) ''ID_1'' = Some True
 \<and> flags_ok first_entered
 \<and> flags_ok (snd (the (run 5 (after ''ID_2'' ''a'' (Some 0)) first_entered)))
 \<and> distinct (entered (new_events first_entered
       (snd (the (run 5 (after ''ID_2'' ''a'' (Some 0)) first_entered)))))
 \<and> entered (new_events first_entered
       (snd (the (run 5 (after ''ID_2'' ''a'' (Some 0)) first_entered)))) = [''ID_2'']
 \<and> \<not> truthy (isPending first_entered) ''ID_2''
 \<and> map_of (payloadables first_entered) ''ID_2'' = Some (just ''b'')
 \<and> invokePayloadable 3 FromWaitFor ''ID_2'' first_entered \<noteq> None
 \<and> isHandled (snd (the (invokePayloadable 3 FromWaitFor ''ID_2'' first_entered))) ''ID_2'' = Some True
 \<and> truthy (isPending first_entered) ''ID_1''
 \<and> dispatch_loop 1 [''ID_1''] first_entered = dispatch_loop 0 [] first_entered"
proof -
  let ?d = "dispatch 8 0 two_subscribers"
  have a1: "\<not> isDispatching two_subscribers" by (simp add: engine)
  have a2: "?d \<noteq> None" by (simp add: engine)
  then have a3: "?d = Some (fst (the ?d), snd (the ?d))" by auto
  have a4: "flags_ok two_subscribers" by (simp add: flags_ok_def engine)
  note T = token_state_machine [THEN conjunct1, rule_format, OF a1 a3]
  have a5: "distinct (entered (new_events two_subscribers (snd (the ?d))))"
    using T by (rule conjunct1)
  have a6: "flags_ok (snd (the ?d))" using T a4 by blast
  have a7: "entered (new_events two_subscribers (snd (the ?d))) = [''ID_1'', ''ID_2'']"
    by (simp add: engine new_events_def)
  let ?c = "after ''ID_2'' ''a'' (Some 0) :: nat prog"
  let ?r = "run 5 ?c first_entered"
  have b1: "isDispatching first_entered" by (simp add: engine)
  have b2: "?r \<noteq> None" by (simp add: engine)
  then have b3: "?r = Some (fst (the ?r), snd (the ?r))" by auto
  have b4: "isPending first_entered ''ID_1'' = Some True" by (simp add: engine)
  have b5: "flags_ok first_entered" by (simp add: flags_ok_def engine)
  note R = token_state_machine [THEN conjunct2, THEN conjunct1, rule_format, OF b1 b3]
  have b6: "isPending (snd (the ?r)) ''ID_1'' = Some True" using R b4 by blast
  have b7: "flags_ok (snd (the ?r))" using R b5 by blast
  have b8: "distinct (entered (new_events first_entered (snd (the ?r))))" using R by blast
  have b9: "entered (new_events first_entered (snd (the ?r))) = [''ID_2'']"
    by (simp add: engine new_events_def)
  have b10: "\<not> truthy (isPending first_entered) ''ID_2''" by (simp add: engine)
  let ?i = "invokePayloadable 3 FromWaitFor ''ID_2'' first_entered"
  have c1: "map_of (payloadables first_entered) ''ID_2'' = Some (just ''b'')" by (simp add: engine)
  have c2: "?i \<noteq> None" by (simp add: engine)
  have c3: "fst (the ?i) = Inr ()" by (simp add: engine)
  have c4: "invokePayloadable (Suc 2) FromWaitFor ''ID_2'' first_entered = Some (Inr (), snd (the ?i))"
    using c2 c3 by (auto simp: numeral_3_eq_3 simp del: invokePayloadable.simps)
  have "\<exists>s2. run 2 (just ''b'' (pendingPayload first_entered))
               (first_entered\<lparr> isPending := (isPending first_entered)(''ID_2'' \<mapsto> True),
                  trace := trace first_entered @ [Enter FromWaitFor ''ID_2''] \<rparr>)
             = Some (Inr (), s2)
           \<and> (case (Inr () :: error + unit) of
                 Inl e \<Rightarrow> snd (the ?i) = s2
               | Inr u \<Rightarrow> snd (the ?i) = s2\<lparr> isHandled := (isHandled s2)(''ID_2'' \<mapsto> True),
                                    trace := trace s2 @ [Leave ''ID_2''] \<rparr>)"
    by (rule token_state_machine [THEN conjunct2, THEN conjunct2, THEN conjunct1, rule_format,
          OF c1 c4])
  then obtain s2 where "snd (the ?i) = s2\<lparr> isHandled := (isHandled s2)(''ID_2'' \<mapsto> True),
                                    trace := trace s2 @ [Leave ''ID_2''] \<rparr>"
    by auto
  then have c5: "isHandled (snd (the ?i)) ''ID_2'' = Some True"
    by (simp del: invokePayloadable.simps)
  have d1: "truthy (isPending first_entered) ''ID_1''" by (simp add: engine)
  have "dispatch_loop (Suc 0) [''ID_1''] first_entered = dispatch_loop 0 [] first_entered"
    by (rule token_state_machine [THEN conjunct2, THEN conjunct2, THEN conjunct2, THEN conjunct1,
          rule_format, OF d1])
  then have d2: "dispatch_loop 1 [''ID_1''] first_entered = dispatch_loop 0 [] first_entered"
    by (simp only: One_nat_def)
  show ?thesis
    by (insert a1 a2 a4 a5 a7 a6 b1 b2 b4 b6 b5 b7 b8 b9 b10 c1 c2 c5 d1 d2, intro conjI; assumption)
qed

section \<open>The order of callbacks\<close>

lemmas symbolic =
  startDispatching_def stopDispatching_def truthy_def has_payloadable_def uncaught_def
  Let_def run_numeral invokePayloadable_numeral waitFor_loop_numeral dispatch_loop_numeral
  after_def just_def new_events_def

lemma chain_order:
  assumes "payloadables st \<in> arrangements (ta, after tb la) (tb, after tc lb) (tc, just lc)"
    and "ta \<noteq> tb" "tb \<noteq> tc" "ta \<noteq> tc" "\<not> dispatching st"
  shows "\<exists>st'. dispatch 12 payload st = Some (Inr (), st')
      \<and> acts (new_events st st') = [lc, lb, la] \<and> left (new_events st st') = [tc, tb, ta]"
proof -
  let ?a = "(ta, after tb la :: 'a option \<Rightarrow> 'a prog)"
  let ?b = "(tb, after tc lb :: 'a option \<Rightarrow> 'a prog)"
  let ?c = "(tc, just lc :: 'a option \<Rightarrow> 'a prog)"
  from assms(1) consider
      "payloadables st = [?a, ?b, ?c]" | "payloadables st = [?a, ?c, ?b]"
    | "payloadables st = [?b, ?a, ?c]" | "payloadables st = [?b, ?c, ?a]"
    | "payloadables st = [?c, ?a, ?b]" | "payloadables st = [?c, ?b, ?a]"
    unfolding arrangements_def by blast
  then show ?thesis
  proof cases
    case 1
    then show ?thesis using assms(2-5) by (simp add: symbolic)
  next
    case 2
    then show ?thesis using assms(2-5) by (simp add: symbolic)
  next
    case 3
    then show ?thesis using assms(2-5) by (simp add: symbolic)
  next
    case 4
    then show ?thesis using assms(2-5) by (simp add: symbolic)
  next
    case 5
    then show ?thesis using assms(2-5) by (simp add: symbolic)
  next
    case 6
    then show ?thesis using assms(2-5) by (simp add: symbolic)
  qed
qed

lemma invoke_handled:
  "invokePayloadable n s tok st = Some (Inr u, st') \<Longrightarrow> isHandled st' tok = Some True"
  by (cases n) (auto simp: Let_def split: option.splits sum.splits)

lemma invoke_path:
  "dispatching st \<Longrightarrow> \<not> truthy (isPending st) tok \<Longrightarrow> has_payloadable st tok \<Longrightarrow>
   invokePayloadable n s tok st = Some (r, st') \<Longrightarrow> path (site_keys s tok) st st'"
  using sound_all by (rule sound_invokeD)

lemma waitFor_loop_path:
  "dispatching st \<Longrightarrow> waitFor_loop n ids st = Some (r, st') \<Longrightarrow> path {} st st'"
  using sound_all by (rule sound_waitFor_loopD)

lemma dispatch_loop_path:
  "dispatching st \<Longrightarrow> dispatch_loop n ks st = Some (r, st') \<Longrightarrow> path (set ks) st st'"
  using sound_all by (rule sound_dispatch_loopD)

lemma waitFor_loop_handles:
  "dispatching st \<Longrightarrow> waitFor_loop n ids st = Some (Inr (), st') \<Longrightarrow> i \<in> set ids \<Longrightarrow>
   truthy (isHandled st') (key i)"
proof (induction ids arbitrary: n st)
  case Nil
  then show ?case by simp
next
  case (Cons j ids)
  from Cons.prems(2) obtain m where n: "n = Suc m" by (cases n) auto
  show ?case
  proof (cases "truthy (isPending st) (key j)")
    case True
    then have h: "truthy (isHandled st) (key j)" and rest: "waitFor_loop m ids st = Some (Inr (), st')"
      using Cons.prems(2) unfolding n by (auto simp: Let_def split: if_splits)
    show ?thesis
    proof (cases "i = j")
      case True
      have "path {} st st'" using Cons.prems(1) rest by (rule waitFor_loop_path)
      then show ?thesis using h True by (simp add: path_truthy_handled)
    next
      case False
      then have "i \<in> set ids" using Cons.prems(3) by simp
      with Cons.prems(1) rest show ?thesis by (rule Cons.IH)
    qed
  next
    case np: False
    then have has: "has_payloadable st (key j)"
      using Cons.prems(2) unfolding n by (auto simp: Let_def split: if_splits)
    then obtain st1 where inv: "invokePayloadable m FromWaitFor (key j) st = Some (Inr (), st1)"
      and rest: "waitFor_loop m ids st1 = Some (Inr (), st')"
      using Cons.prems(2) np unfolding n
      by (auto simp: Let_def split: option.splits sum.splits)
    have "path (site_keys FromWaitFor (key j)) st st1"
      using Cons.prems(1) np has inv by (rule invoke_path)
    then have d1: "dispatching st1" using Cons.prems(1) by (simp add: path_dispatching)
    show ?thesis
    proof (cases "i = j")
      case True
      have "isHandled st1 (key j) = Some True" using inv by (rule invoke_handled)
      then have "truthy (isHandled st1) (key j)" by (simp add: truthy_def)
      moreover have "path {} st1 st'" using d1 rest by (rule waitFor_loop_path)
      ultimately show ?thesis using True by (simp add: path_truthy_handled)
    next
      case False
      then have "i \<in> set ids" using Cons.prems(3) by simp
      with d1 rest show ?thesis by (rule Cons.IH)
    qed
  qed
qed

lemma atomic_handled_new:
  "atomic K b c \<Longrightarrow> truthy (isHandled c) t \<Longrightarrow>
   truthy (isHandled b) t \<or> t \<in> set (left (new_events b c))"
  by (induction rule: atomic.induct)
     (auto simp: register_def unregister_def Let_def new_events_def truthy_def split: if_splits)

lemma path_handled_new:
  "path K a b \<Longrightarrow> truthy (isHandled b) t \<Longrightarrow>
   truthy (isHandled a) t \<or> t \<in> set (left (new_events a b))"
proof (induction rule: rtranclp_induct)
  case base
  then show ?case by simp
next
  case (step b c)
  have ne: "new_events a c = new_events a b @ new_events b c"
    using step.hyps by (intro new_events_path[of K a b K c]) auto
  from atomic_handled_new[OF step.hyps(2) step.prems]
  show ?case using step.IH ne by auto
qed

lemma invoke_loop_entered:
  assumes d: "dispatching st" and own: "map_of (payloadables st) tok = Some payloadable"
    and inv: "invokePayloadable n FromDispatch tok st = Some (r, st')"
  shows "trace st' = trace st @ new_events st st' \<and> loop_entered (new_events st st') = [tok]"
proof -
  from inv obtain m where n: "n = Suc m" by (cases n) auto
  let ?s1 = "st\<lparr> isPending := (isPending st)(tok \<mapsto> True), trace := trace st @ [Enter FromDispatch tok] \<rparr>"
  from invoke_unfold[OF own inv[unfolded n]] obtain s2 where
    run: "run m (payloadable (pendingPayload st)) ?s1 = Some (r, s2)"
    and st': "case r of Inl e \<Rightarrow> st' = s2
              | Inr u \<Rightarrow> st' = s2\<lparr> isHandled := (isHandled s2)(tok \<mapsto> True), trace := trace s2 @ [Leave tok] \<rparr>"
    by blast
  have "dispatching ?s1" using d by simp
  then have p: "path {} ?s1 s2" using run by (rule run_path)
  then have t2: "trace s2 = trace ?s1 @ new_events ?s1 s2" by (rule path_trace)
  have "seg_ok {} ?s1 s2" using p by (rule path_seg_ok)
  then have l: "loop_entered (new_events ?s1 s2) = []" by (simp add: seg_ok_def)
  show ?thesis
  proof (cases r)
    case (Inl e)
    then have "trace st' = trace st @ (Enter FromDispatch tok # new_events ?s1 s2)"
      using st' t2 by simp
    then show ?thesis using l by (simp add: new_events_def)
  next
    case (Inr u)
    then have "trace st' = trace st @ (Enter FromDispatch tok # new_events ?s1 s2 @ [Leave tok])"
      using st' t2 by simp
    then show ?thesis using l by (simp add: new_events_def)
  qed
qed

lemma dispatch_loop_order:
  "dispatching st \<Longrightarrow> dispatch_loop n ks st = Some (r, st') \<Longrightarrow>
   subseq (loop_entered (new_events st st')) ks"
proof (induction ks arbitrary: n st)
  case Nil
  then show ?case by simp
next
  case (Cons k ks)
  from Cons.prems(2) obtain m where n: "n = Suc m" by (cases n) auto
  show ?case
  proof (cases "map_of (payloadables st) k = None \<or> truthy (isPending st) k")
    case True
    then have "dispatch_loop m ks st = Some (r, st')"
      using Cons.prems(2) unfolding n by (auto split: if_splits)
    with Cons.prems(1) have "subseq (loop_entered (new_events st st')) ks" by (rule Cons.IH)
    then show ?thesis by (rule list_emb_Cons)
  next
    case False
    then obtain payloadable where own: "map_of (payloadables st) k = Some payloadable"
      and np: "\<not> truthy (isPending st) k" by auto
    obtain r1 st1 where inv: "invokePayloadable m FromDispatch k st = Some (r1, st1)"
      using Cons.prems(2) own np unfolding n by (auto split: option.splits)
    from invoke_loop_entered[OF Cons.prems(1) own inv]
    have t1: "trace st1 = trace st @ new_events st st1" and l1: "loop_entered (new_events st st1) = [k]"
      by simp_all
    show ?thesis
    proof (cases r1)
      case (Inl e)
      then have "st' = st1" using Cons.prems(2) own np inv unfolding n by simp
      then show ?thesis using l1 by simp
    next
      case (Inr u)
      then have rest: "dispatch_loop m ks st1 = Some (r, st')"
        using Cons.prems(2) own np inv unfolding n by simp
      have "has_payloadable st k" using own by (simp add: has_payloadable_def)
      with Cons.prems(1) np have "path (site_keys FromDispatch k) st st1" using inv by (rule invoke_path)
      then have d1: "dispatching st1" using Cons.prems(1) by (simp add: path_dispatching)
      then have "path (set ks) st1 st'" using rest by (rule dispatch_loop_path)
      then have t2: "trace st' = trace st1 @ new_events st1 st'" by (rule path_trace)
      have "new_events st st' = new_events st st1 @ new_events st1 st'"
        using t1 t2 by (rule new_events_trans)
      moreover have "subseq (loop_entered (new_events st1 st')) ks" using d1 rest by (rule Cons.IH)
      ultimately show ?thesis using l1 by simp
    qed
  qed
qed

lemma dispatchTokens_Subscriber:
  "dispatchTokens args = Inr ids \<Longrightarrow> Subscriber t \<in> set args \<Longrightarrow> Some t \<in> set ids"
proof (induction args arbitrary: ids)
  case Nil
  then show ?case by simp
next
  case (Cons a args)
  then show ?case by (cases a) (auto split: sum.splits)
qed

text \<open>
  Claim C1. (1) Let the registry hold, in any of the six orders of registration, a
  subscriber A that waits for B and then acts, B that waits for C and then acts, and C that
  acts. Then \<open>dispatch\<close>, with any fuel from 12 on, returns normally, and the callbacks
  act, and return, in the order C, B, A. (2) Whenever, during a round, \<open>waitFor\<close> returns
  normally, every subscriber it was given is handled; one that was not handled before the
  call (so every one that was not yet pending, in a state where handled implies pending)
  had its callback return during the call. (3) The tokens whose callbacks the loop of
  \<open>dispatch\<close> calls itself, those no callback waited for before their turn, are called
  in the order of registration.
\<close>

theorem waitFor_order:
  "(payloadables st \<in> arrangements (ta, after tb la) (tb, after tc lb) (tc, just lc) \<longrightarrow>
    ta \<noteq> tb \<longrightarrow> tb \<noteq> tc \<longrightarrow> ta \<noteq> tc \<longrightarrow> \<not> isDispatching st \<longrightarrow> 12 \<le> m \<longrightarrow>
      (\<exists>st'. dispatch m payload st = Some (Inr (), st')
           \<and> acts (new_events st st') = [lc, lb, la]
           \<and> left (new_events st st') = [tc, tb, ta]))
 \<and> (isDispatching s \<longrightarrow> waitFor n args s = Some (Inr (), s') \<longrightarrow> Subscriber t \<in> set args \<longrightarrow>
      truthy (isHandled s') t
    \<and> (\<not> truthy (isHandled s) t \<longrightarrow> t \<in> set (left (new_events s s'))))
 \<and> (\<not> isDispatching st \<longrightarrow> dispatch n payload st = Some (r, st') \<longrightarrow>
      subseq (loop_entered (new_events st st')) (map fst (payloadables st)))"
proof (intro conjI impI)
  assume "payloadables st \<in> arrangements (ta, after tb la) (tb, after tc lb) (tc, just lc)"
    and "ta \<noteq> tb" "tb \<noteq> tc" "ta \<noteq> tc" and "\<not> isDispatching st" and m: "12 \<le> m"
  then obtain st' where d: "dispatch 12 payload st = Some (Inr (), st')"
    and o: "acts (new_events st st') = [lc, lb, la]" "left (new_events st st') = [tc, tb, ta]"
    using chain_order[of st ta tb la tc lb lc payload] by (auto simp: isDispatching_def)
  from d m have "dispatch m payload st = Some (Inr (), st')" by (rule more_fuel_dispatch)
  with o show "\<exists>st'. dispatch m payload st = Some (Inr (), st')
           \<and> acts (new_events st st') = [lc, lb, la]
           \<and> left (new_events st st') = [tc, tb, ta]" by blast
next
  assume d: "isDispatching s" and w: "waitFor n args s = Some (Inr (), s')"
    and t: "Subscriber t \<in> set args"
  from d have ds: "dispatching s" by (simp add: isDispatching_def)
  from w ds obtain ids where ids: "dispatchTokens args = Inr ids"
    and l: "waitFor_loop n ids s = Some (Inr (), s')"
    by (auto split: sum.splits)
  from ids t have "Some t \<in> set ids" by (rule dispatchTokens_Subscriber)
  with ds l have "truthy (isHandled s') (key (Some t))" by (rule waitFor_loop_handles)
  then show h: "truthy (isHandled s') t" by simp
  assume "\<not> truthy (isHandled s) t"
  moreover have "path {} s s'" using ds l by (rule waitFor_loop_path)
  ultimately show "t \<in> set (left (new_events s s'))" using h path_handled_new by blast
next
  assume "\<not> isDispatching st" and d: "dispatch n payload st = Some (r, st')"
  then have nd: "\<not> dispatching st" by (simp add: isDispatching_def)
  from nd d obtain s0 where
    l: "dispatch_loop n (map fst (payloadables st)) (startDispatching payload st) = Some (r, s0)"
    and ne: "new_events st st' = new_events (startDispatching payload st) s0"
    by (rule dispatch_round)
  have "dispatching (startDispatching payload st)" by simp
  then have "subseq (loop_entered (new_events (startDispatching payload st) s0)) (map fst (payloadables st))"
    using l by (rule dispatch_loop_order)
  then show "subseq (loop_entered (new_events st st')) (map fst (payloadables st))"
    unfolding ne .
qed

lemmas [engine] = chained_def chained_and_one_def chained_entered_def

theorem waitFor_order_witness:
  "payloadables chained \<in> arrangements (''ID_1'', after ''ID_2'' ''a'') (''ID_2'', after ''ID_3'' ''b'')
      (''ID_3'', just ''c'')
 \<and> \<not> isDispatching chained
 \<and> (12::nat) \<le> 12
 \<and> dispatch 12 0 chained \<noteq> None
 \<and> fst (the (dispatch 12 0 chained)) = Inr ()
 \<and> acts (new_events chained (snd (the (dispatch 12 0 chained)))) = [''c'', ''b'', ''a'']
 \<and> left (new_events chained (snd (the (dispatch 12 0 chained)))) = [''ID_3'', ''ID_2'', ''ID_1'']
 \<and> isDispatching chained_entered
 \<and> waitFor 8 [Subscriber ''ID_2''] chained_entered \<noteq> None
 \<and> fst (the (waitFor 8 [Subscriber ''ID_2''] chained_entered)) = Inr ()
 \<and> \<not> truthy (isHandled chained_entered) ''ID_2''
 \<and> truthy (isHandled (snd (the (waitFor 8 [Subscriber ''ID_2''] chained_entered)))) ''ID_2''
 \<and> ''ID_2'' \<in> set (left (new_events chained_entered
       (snd (the (waitFor 8 [Subscriber ''ID_2''] chained_entered)))))
 \<and> left (new_events chained_entered (snd (the (waitFor 8 [Subscriber ''ID_2''] chained_entered))))
     = [''ID_3'', ''ID_2'']
 \<and> \<not> isDispatching chained_and_one
 \<and> dispatch 12 0 chained_and_one \<noteq> None
 \<and> map fst (payloadables chained_and_one) = [''ID_1'', ''ID_2'', ''ID_3'', ''ID_4'']
 \<and> subseq (loop_entered (new_events chained_and_one (snd (the (dispatch 12 0 chained_and_one)))))
       (map fst (payloadables chained_and_one))
 \<and> loop_entered (new_events chained_and_one (snd (the (dispatch 12 0 chained_and_one))))
     = [''ID_1'', ''ID_4'']
 \<and> acts (new_events chained_and_one (snd (the (dispatch 12 0 chained_and_one))))
     = [''c'', ''b'', ''a'', ''d'']"
proof -
  let ?d = "dispatch 12 0 chained"
  have a1: "payloadables chained \<in> arrangements (''ID_1'', after ''ID_2'' ''a'')
      (''ID_2'', after ''ID_3'' ''b'') (''ID_3'', just ''c'')"
    by (simp add: arrangements_def chained_def register_def new_dispatcher_def Let_def Prefix_def
        decimal_small digit_def Digits_def increment_def)
  have a2: "\<not> isDispatching chained" by (simp add: engine)
  have a3: "(12::nat) \<le> 12" by simp
  have n1: "''ID_1'' \<noteq> ''ID_2''" and n2: "''ID_2'' \<noteq> ''ID_3''" and n3: "''ID_1'' \<noteq> ''ID_3''"
    by simp_all
  from waitFor_order [THEN conjunct1, rule_format, OF a1 n1 n2 n3 a2 a3, of 0]
  obtain st' where e: "?d = Some (Inr (), st')"
    and o: "acts (new_events chained st') = [''c'', ''b'', ''a'']"
      "left (new_events chained st') = [''ID_3'', ''ID_2'', ''ID_1'']"
    by blast
  have a4: "?d \<noteq> None" and a5: "fst (the ?d) = Inr ()" unfolding e by simp_all
  have a6: "acts (new_events chained (snd (the ?d))) = [''c'', ''b'', ''a'']"
    and a7: "left (new_events chained (snd (the ?d))) = [''ID_3'', ''ID_2'', ''ID_1'']"
    using o unfolding e by simp_all
  let ?w = "waitFor 8 [Subscriber ''ID_2''] chained_entered"
  have b1: "isDispatching chained_entered" by (simp add: engine)
  have b2: "?w \<noteq> None" by (simp add: engine)
  have b3: "fst (the ?w) = Inr ()" by (simp add: engine)
  have b4: "?w = Some (Inr (), snd (the ?w))" using b2 b3 by (auto simp del: waitFor.simps)
  have b5: "Subscriber ''ID_2'' \<in> set [Subscriber ''ID_2'']" by simp
  have b6: "\<not> truthy (isHandled chained_entered) ''ID_2''" by (simp add: engine)
  note W = waitFor_order [THEN conjunct2, THEN conjunct1, rule_format, OF b1 b4 b5]
  have b7: "truthy (isHandled (snd (the ?w))) ''ID_2''" using W by (rule conjunct1)
  have b8: "''ID_2'' \<in> set (left (new_events chained_entered (snd (the ?w))))" using W b6 by blast
  have b9: "left (new_events chained_entered (snd (the ?w))) = [''ID_3'', ''ID_2'']"
    by (simp add: engine new_events_def)
  let ?f = "dispatch 12 0 chained_and_one"
  have c1: "\<not> isDispatching chained_and_one" by (simp add: engine)
  have c2: "?f \<noteq> None" by (simp add: engine)
  then have c3: "?f = Some (fst (the ?f), snd (the ?f))" by (auto simp del: dispatch.simps)
  have c4: "map fst (payloadables chained_and_one) = [''ID_1'', ''ID_2'', ''ID_3'', ''ID_4'']"
    by (simp add: engine)
  have c5: "subseq (loop_entered (new_events chained_and_one (snd (the ?f))))
       (map fst (payloadables chained_and_one))"
    by (rule waitFor_order [THEN conjunct2, THEN conjunct2, rule_format, OF c1 c3])
  have c6: "loop_entered (new_events chained_and_one (snd (the ?f))) = [''ID_1'', ''ID_4'']"
    by (simp add: engine new_events_def)
  have c7: "acts (new_events chained_and_one (snd (the ?f))) = [''c'', ''b'', ''a'', ''d'']"
    by (simp add: engine new_events_def)
  show ?thesis
    by (insert a1 a2 a3 a4 a5 a6 a7 b1 b2 b3 b6 b7 b8 b9 c1 c2 c4 c5 c6 c7, intro conjI; assumption)
qed

section \<open>Circular dependencies\<close>

lemma circular_7:
  assumes "payloadables st = [(tx, fx), (ty, fy)]" and "tx \<noteq> ty" and "\<not> dispatching st"
    and "fx (Some payload) = WaitFor [Subscriber ty] (uncaught kx)"
    and "fy (Some payload) = WaitFor [Subscriber tx] (uncaught ky)"
  shows "\<exists>st'. dispatch 7 payload st = Some (Inl (CircularDependency tx), st')
      \<and> \<not> dispatching st' \<and> pendingPayload st' = None
      \<and> payloadables st' = payloadables st
      \<and> entered (new_events st st') = [tx, ty] \<and> left (new_events st st') = []"
  using assms by (simp add: symbolic)

lemma plain_round_5:
  assumes "payloadables st = [(tx, fx), (ty, fy)]" and "tx \<noteq> ty" and "\<not> dispatching st"
    and "fx (Some q) = Act lx Return" and "fy (Some q) = Act ly Return"
  shows "\<exists>st'. dispatch 5 q st = Some (Inr (), st')
      \<and> left (new_events st st') = [tx, ty] \<and> acts (new_events st st') = [lx, ly]"
  using assms by (simp add: symbolic)

lemma truthy_update: "truthy (flags(t \<mapsto> b)) t' = (if t' = t then b else truthy flags t')"
  by (simp add: truthy_def)

lemma waitFor_pending:
  assumes "dispatching s" and "truthy (isPending s) tx" and "\<not> truthy (isHandled s) tx"
    and "Nullish \<notin> set args"
  shows "waitFor (Suc n) (Subscriber tx # args) s = Some (Inl (CircularDependency tx), s)"
proof -
  obtain ids where "dispatchTokens args = Inr ids"
    using assms(4) dispatchTokens_Inl by (cases "dispatchTokens args") auto
  then show ?thesis using assms(1-3) by (simp add: Let_def)
qed

lemma run_doing:
  "run (length ls + n) (doing ls c) st = run n c (st\<lparr> trace := trace st @ map Did ls \<rparr>)"
proof (induction ls arbitrary: st)
  case Nil
  show ?case by simp
next
  case (Cons l ls)
  show ?case using Cons.IH[of "st\<lparr> trace := trace st @ [Did l] \<rparr>"] by simp
qed

lemma entered_Did [simp]: "entered (map Did ls) = []"
  by (induction ls) auto

lemma left_Did [simp]: "left (map Did ls) = []"
  by (induction ls) auto

lemma acts_Did [simp]: "acts (map Did ls) = ls"
  by (induction ls) auto

lemma circular_invoke:
  assumes d: "dispatching s" and ne: "tx \<noteq> ty"
    and ox: "map_of (payloadables s) tx = Some fx" and oy: "map_of (payloadables s) ty = Some fy"
    and px: "\<not> truthy (isPending s) tx" and py: "\<not> truthy (isPending s) ty"
    and hx: "\<not> truthy (isHandled s) tx"
    and fx: "fx (pendingPayload s) = doing lsx (WaitFor (Subscriber ty # ax) (uncaught kx))"
    and fy: "fy (pendingPayload s) = doing lsy (WaitFor (Subscriber tx # ay) (uncaught ky))"
    and ax: "Nullish \<notin> set ax" and ay: "Nullish \<notin> set ay"
    and m: "length lsx + length lsy + 6 \<le> m"
  shows "invokePayloadable m site tx s = Some (Inl (CircularDependency tx),
           s\<lparr> isPending := (isPending s)(tx \<mapsto> True, ty \<mapsto> True),
              trace := trace s @ Enter site tx # map Did lsx @ Enter FromWaitFor ty # map Did lsy \<rparr>)"
proof -
  let ?e = "Inl (CircularDependency tx) :: error + unit"
  define sx0 where "sx0 = s\<lparr> isPending := (isPending s)(tx \<mapsto> True), trace := trace s @ [Enter site tx] \<rparr>"
  define sx where "sx = sx0\<lparr> trace := trace sx0 @ map Did lsx \<rparr>"
  define sy0 where "sy0 = sx\<lparr> isPending := (isPending sx)(ty \<mapsto> True), trace := trace sx @ [Enter FromWaitFor ty] \<rparr>"
  define sy where "sy = sy0\<lparr> trace := trace sy0 @ map Did lsy \<rparr>"
  let ?n2 = "length lsy + Suc (Suc 0)"
  let ?n5 = "Suc (Suc (Suc ?n2))"
  have w: "waitFor (Suc 0) (Subscriber tx # ay) sy = Some (?e, sy)"
    using d hx ne ay
    by (intro waitFor_pending) (simp_all add: truthy_update sy_def sy0_def sx_def sx0_def)
  have "run (Suc (Suc 0)) (WaitFor (Subscriber tx # ay) (uncaught ky)) sy
      = run (Suc 0) (uncaught ky ?e) sy"
    using w by (rule run_WaitFor_result)
  then have ay2: "run (Suc (Suc 0)) (WaitFor (Subscriber tx # ay) (uncaught ky)) sy = Some (?e, sy)"
    by (simp add: uncaught_def)
  have "run ?n2 (doing lsy (WaitFor (Subscriber tx # ay) (uncaught ky))) sy0
      = run (Suc (Suc 0)) (WaitFor (Subscriber tx # ay) (uncaught ky)) sy"
    unfolding sy_def by (rule run_doing)
  then have "run ?n2 (doing lsy (WaitFor (Subscriber tx # ay) (uncaught ky))) sy0 = Some (?e, sy)"
    using ay2 by (rule trans)
  then have ry: "run ?n2 (fy (pendingPayload sx))
      (sx\<lparr> isPending := (isPending sx)(ty \<mapsto> True), trace := trace sx @ [Enter FromWaitFor ty] \<rparr>)
      = Some (?e, sy)"
    using fy by (simp add: sy0_def sx_def sx0_def)
  have oy': "map_of (payloadables sx) ty = Some fy" using oy by (simp add: sx_def sx0_def)
  have iy: "invokePayloadable (Suc ?n2) FromWaitFor ty sx = Some (?e, sy)"
    using oy' ry by (rule invoke_raises)
  obtain idx where idx: "dispatchTokens ax = Inr idx"
    using ax dispatchTokens_Inl by (cases "dispatchTokens ax") auto
  have hy: "has_payloadable sx ty" using oy' by (simp add: has_payloadable_def)
  have py': "\<not> truthy (isPending sx) ty" using py ne by (simp add: truthy_update sx_def sx0_def)
  have dx: "dispatching sx" using d by (simp add: sx_def sx0_def)
  have "waitFor_loop (Suc (Suc ?n2)) (Some ty # idx) sx = Some (?e, sy)"
    using py' hy iy by (simp add: Let_def del: invokePayloadable.simps)
  then have wx: "waitFor (Suc (Suc ?n2)) (Subscriber ty # ax) sx = Some (?e, sy)"
    using dx idx by (simp del: waitFor_loop.simps)
  have "run (Suc (Suc (Suc ?n2))) (WaitFor (Subscriber ty # ax) (uncaught kx)) sx
      = run (Suc (Suc ?n2)) (uncaught kx ?e) sy"
    using wx by (rule run_WaitFor_result)
  then have ax5: "run ?n5 (WaitFor (Subscriber ty # ax) (uncaught kx)) sx = Some (?e, sy)"
    by (simp add: uncaught_def)
  have "run (length lsx + ?n5) (doing lsx (WaitFor (Subscriber ty # ax) (uncaught kx))) sx0
      = run ?n5 (WaitFor (Subscriber ty # ax) (uncaught kx)) sx"
    unfolding sx_def by (rule run_doing)
  then have "run (length lsx + ?n5) (doing lsx (WaitFor (Subscriber ty # ax) (uncaught kx))) sx0
      = Some (?e, sy)"
    using ax5 by (rule trans)
  then have rx: "run (length lsx + ?n5) (fx (pendingPayload s))
      (s\<lparr> isPending := (isPending s)(tx \<mapsto> True), trace := trace s @ [Enter site tx] \<rparr>)
      = Some (?e, sy)"
    using fx by (simp add: sx0_def)
  have "invokePayloadable (Suc (length lsx + ?n5)) site tx s = Some (?e, sy)"
    using ox rx by (rule invoke_raises)
  moreover have "Suc (length lsx + ?n5) \<le> m" using m by simp
  ultimately have "invokePayloadable m site tx s = Some (?e, sy)" by (rule more_fuel_invoke)
  then show ?thesis by (simp add: sy_def sy0_def sx_def sx0_def)
qed

lemmas [engine] = mutual_def

text \<open>
  Claim C2, as the code has it. (1) A \<open>waitFor\<close> whose first target is pending and not
  handled raises the circular dependency error naming that target, and changes nothing.
  (2) Let X and Y be registered and not yet called in the round, and let their callbacks,
  for the payload of the round, each call \<open>waitFor\<close> with the other as first target,
  before any other call to the engine, and not catch what it raises. Then the call of the
  callback of X, by the loop of \<open>dispatch\<close> or by the \<open>waitFor\<close> of a third subscriber,
  ends with the circular dependency error naming X: of the two, X is the one called first,
  and its callback is still running when the \<open>waitFor\<close> in the callback of Y reaches it.
  (3) When it is the loop of \<open>dispatch\<close> that calls X, after the tokens before X in the
  iteration were dealt with, \<open>dispatch\<close> raises that error; after the failure
  \<open>isDispatching()\<close> is false, and a further \<open>dispatch\<close> is not rejected: it begins a
  round of its own. (4) When X and Y are the only subscribers and wait for each other at
  once, \<open>dispatch\<close>, with any fuel from 7 on, raises the error naming X, and a further
  \<open>dispatch\<close>, of a payload for which the two callbacks just act, returns normally.
\<close>

theorem circular_dependency:
  "(isDispatching s \<longrightarrow> truthy (isPending s) tx \<longrightarrow> \<not> truthy (isHandled s) tx \<longrightarrow>
      Nullish \<notin> set args \<longrightarrow>
      waitFor (Suc n) (Subscriber tx # args) s = Some (Inl (CircularDependency tx), s))
 \<and> (isDispatching s \<longrightarrow> tx \<noteq> ty \<longrightarrow>
      map_of (payloadables s) tx = Some fx \<longrightarrow> map_of (payloadables s) ty = Some fy \<longrightarrow>
      \<not> truthy (isPending s) tx \<longrightarrow> \<not> truthy (isPending s) ty \<longrightarrow> \<not> truthy (isHandled s) tx \<longrightarrow>
      fx (pendingPayload s) = doing lsx (WaitFor (Subscriber ty # ax) (uncaught kx)) \<longrightarrow>
      fy (pendingPayload s) = doing lsy (WaitFor (Subscriber tx # ay) (uncaught ky)) \<longrightarrow>
      Nullish \<notin> set ax \<longrightarrow> Nullish \<notin> set ay \<longrightarrow> length lsx + length lsy + 6 \<le> m \<longrightarrow>
      invokePayloadable m site tx s = Some (Inl (CircularDependency tx),
        s\<lparr> isPending := (isPending s)(tx \<mapsto> True, ty \<mapsto> True),
           trace := trace s @ Enter site tx # map Did lsx @ Enter FromWaitFor ty # map Did lsy \<rparr>))
 \<and> (\<not> isDispatching st \<longrightarrow> map fst (payloadables st) = pre @ tx # post \<longrightarrow>
      dispatch_loop m pre (startDispatching payload st) = Some (Inr (), s1) \<longrightarrow>
      tx \<noteq> ty \<longrightarrow>
      map_of (payloadables s1) tx = Some fx \<longrightarrow> map_of (payloadables s1) ty = Some fy \<longrightarrow>
      \<not> truthy (isPending s1) tx \<longrightarrow> \<not> truthy (isPending s1) ty \<longrightarrow> \<not> truthy (isHandled s1) tx \<longrightarrow>
      fx (Some payload) = doing lsx (WaitFor (Subscriber ty # ax) (uncaught kx)) \<longrightarrow>
      fy (Some payload) = doing lsy (WaitFor (Subscriber tx # ay) (uncaught ky)) \<longrightarrow>
      Nullish \<notin> set ax \<longrightarrow> Nullish \<notin> set ay \<longrightarrow>
      length pre + length lsx + length lsy + 7 \<le> m \<longrightarrow>
      (\<exists>st'. dispatch m payload st = Some (Inl (CircularDependency tx), st')
         \<and> entered (new_events s1 st') = [tx, ty] \<and> left (new_events s1 st') = []
         \<and> acts (new_events s1 st') = lsx @ lsy
         \<and> \<not> isDispatching st'
         \<and> dispatch j q st' =
             (case dispatch_loop j (map fst (payloadables st')) (startDispatching q st') of
                None \<Rightarrow> None | Some (r, s') \<Rightarrow> Some (r, stopDispatching s'))))
 \<and> (payloadables st = [(tx, fx), (ty, fy)] \<longrightarrow> tx \<noteq> ty \<longrightarrow> \<not> isDispatching st \<longrightarrow>
      fx (Some payload) = WaitFor [Subscriber ty] (uncaught kx) \<longrightarrow>
      fy (Some payload) = WaitFor [Subscriber tx] (uncaught ky) \<longrightarrow>
      7 \<le> m \<longrightarrow>
      (\<exists>st'. dispatch m payload st = Some (Inl (CircularDependency tx), st')
         \<and> entered (new_events st st') = [tx, ty]
         \<and> \<not> isDispatching st'
         \<and> (fx (Some q) = Act lx Return \<longrightarrow> fy (Some q) = Act ly Return \<longrightarrow>
              (\<exists>st''. dispatch m q st' = Some (Inr (), st'')
                   \<and> left (new_events st' st'') = [tx, ty] \<and> acts (new_events st' st'') = [lx, ly]))))"
proof (intro conjI impI)
  assume "isDispatching s" "truthy (isPending s) tx" "\<not> truthy (isHandled s) tx" "Nullish \<notin> set args"
  then show "waitFor (Suc n) (Subscriber tx # args) s = Some (Inl (CircularDependency tx), s)"
    unfolding isDispatching_def by (rule waitFor_pending)
next
  assume "isDispatching s" "tx \<noteq> ty"
    "map_of (payloadables s) tx = Some fx" "map_of (payloadables s) ty = Some fy"
    "\<not> truthy (isPending s) tx" "\<not> truthy (isPending s) ty" "\<not> truthy (isHandled s) tx"
    "fx (pendingPayload s) = doing lsx (WaitFor (Subscriber ty # ax) (uncaught kx))"
    "fy (pendingPayload s) = doing lsy (WaitFor (Subscriber tx # ay) (uncaught ky))"
    "Nullish \<notin> set ax" "Nullish \<notin> set ay" "length lsx + length lsy + 6 \<le> m"
  then show "invokePayloadable m site tx s = Some (Inl (CircularDependency tx),
        s\<lparr> isPending := (isPending s)(tx \<mapsto> True, ty \<mapsto> True),
           trace := trace s @ Enter site tx # map Did lsx @ Enter FromWaitFor ty # map Did lsy \<rparr>)"
    unfolding isDispatching_def by (rule circular_invoke)
next
  assume nd: "\<not> isDispatching st" and keys: "map fst (payloadables st) = pre @ tx # post"
    and pre: "dispatch_loop m pre (startDispatching payload st) = Some (Inr (), s1)"
    and ne: "tx \<noteq> ty"
    and ox: "map_of (payloadables s1) tx = Some fx" and oy: "map_of (payloadables s1) ty = Some fy"
    and px: "\<not> truthy (isPending s1) tx" and py: "\<not> truthy (isPending s1) ty"
    and hx: "\<not> truthy (isHandled s1) tx"
    and fx: "fx (Some payload) = doing lsx (WaitFor (Subscriber ty # ax) (uncaught kx))"
    and fy: "fy (Some payload) = doing lsy (WaitFor (Subscriber tx # ay) (uncaught ky))"
    and ax: "Nullish \<notin> set ax" and ay: "Nullish \<notin> set ay"
    and m: "length pre + length lsx + length lsy + 7 \<le> m"
  let ?s0 = "startDispatching payload st"
  let ?sy = "s1\<lparr> isPending := (isPending s1)(tx \<mapsto> True, ty \<mapsto> True),
                 trace := trace s1 @ Enter FromDispatch tx # map Did lsx @ Enter FromWaitFor ty # map Did lsy \<rparr>"
  have p: "path (set pre) ?s0 s1" using _ pre by (rule dispatch_loop_path) simp
  then have d1: "dispatching s1" by (simp add: path_dispatching)
  have "pendingPayload s1 = pendingPayload ?s0" using p by (rule path_payload)
  then have pp: "pendingPayload s1 = Some payload" by (simp add: startDispatching_def)
  obtain j' where j': "m - length pre = Suc j'" and six: "length lsx + length lsy + 6 \<le> j'"
    using m by (cases "m - length pre") auto
  have inv: "invokePayloadable j' FromDispatch tx s1 = Some (Inl (CircularDependency tx), ?sy)"
    using d1 ne ox oy px py hx _ _ ax ay six by (rule circular_invoke) (simp_all add: pp fx fy)
  have "dispatch_loop (Suc j') (tx # post) s1 = Some (Inl (CircularDependency tx), ?sy)"
    using ox px inv by (simp del: invokePayloadable.simps)
  then have "dispatch_loop m (pre @ tx # post) ?s0 = Some (Inl (CircularDependency tx), ?sy)"
    using pre j' by (simp add: dispatch_loop_append del: dispatch_loop.simps)
  then have d: "dispatch m payload st = Some (Inl (CircularDependency tx), stopDispatching ?sy)"
    using nd keys by (simp add: isDispatching_def del: dispatch_loop.simps)
  moreover have "entered (new_events s1 (stopDispatching ?sy)) = [tx, ty]"
    "left (new_events s1 (stopDispatching ?sy)) = []"
    "acts (new_events s1 (stopDispatching ?sy)) = lsx @ lsy"
    by (simp_all add: new_events_def)
  moreover have nd': "\<not> isDispatching (stopDispatching ?sy)"
    by (simp add: isDispatching_def stopDispatching_def)
  moreover have "dispatch j q (stopDispatching ?sy) =
             (case dispatch_loop j (map fst (payloadables (stopDispatching ?sy)))
                     (startDispatching q (stopDispatching ?sy)) of
                None \<Rightarrow> None | Some (r, s') \<Rightarrow> Some (r, stopDispatching s'))"
    using nd' by (simp add: isDispatching_def del: dispatch_loop.simps)
  ultimately show "\<exists>st'. dispatch m payload st = Some (Inl (CircularDependency tx), st')
         \<and> entered (new_events s1 st') = [tx, ty] \<and> left (new_events s1 st') = []
         \<and> acts (new_events s1 st') = lsx @ lsy
         \<and> \<not> isDispatching st'
         \<and> dispatch j q st' =
             (case dispatch_loop j (map fst (payloadables st')) (startDispatching q st') of
                None \<Rightarrow> None | Some (r, s') \<Rightarrow> Some (r, stopDispatching s'))"
    by blast
next
  assume a: "payloadables st = [(tx, fx), (ty, fy)]" "tx \<noteq> ty" "\<not> isDispatching st"
    "fx (Some payload) = WaitFor [Subscriber ty] (uncaught kx)"
    "fy (Some payload) = WaitFor [Subscriber tx] (uncaught ky)"
    "7 \<le> m"
  have nd: "\<not> dispatching st" using a(3) by (simp add: isDispatching_def)
  from circular_7[OF a(1,2) nd a(4,5)] obtain st' where
    d: "dispatch 7 payload st = Some (Inl (CircularDependency tx), st')"
    and nd': "\<not> dispatching st'" and reg: "payloadables st' = payloadables st"
    and e: "entered (new_events st st') = [tx, ty]"
    by blast
  have d': "dispatch m payload st = Some (Inl (CircularDependency tx), st')"
    using d a(6) by (rule more_fuel_dispatch)
  have next_round: "\<exists>st''. dispatch m q st' = Some (Inr (), st'')
                \<and> left (new_events st' st'') = [tx, ty] \<and> acts (new_events st' st'') = [lx, ly]"
    if "fx (Some q) = Act lx Return" and "fy (Some q) = Act ly Return"
  proof -
    have r: "payloadables st' = [(tx, fx), (ty, fy)]" using reg a(1) by simp
    from plain_round_5[OF r a(2) nd' that] obtain st'' where
      a': "dispatch 5 q st' = Some (Inr (), st'')"
      and b: "left (new_events st' st'') = [tx, ty]" "acts (new_events st' st'') = [lx, ly]"
      by blast
    have "5 \<le> m" using a(6) by simp
    with a' have "dispatch m q st' = Some (Inr (), st'')" by (rule more_fuel_dispatch)
    with b show ?thesis by blast
  qed
  show "\<exists>st'. dispatch m payload st = Some (Inl (CircularDependency tx), st')
         \<and> entered (new_events st st') = [tx, ty]
         \<and> \<not> isDispatching st'
         \<and> (fx (Some q) = Act lx Return \<longrightarrow> fy (Some q) = Act ly Return \<longrightarrow>
              (\<exists>st''. dispatch m q st' = Some (Inr (), st'')
                   \<and> left (new_events st' st'') = [tx, ty] \<and> acts (new_events st' st'') = [lx, ly]))"
    using d' e nd' next_round by (auto simp: isDispatching_def simp del: dispatch.simps)
qed

theorem circular_dependency_witness:
  "map fst (payloadables mutual) = [''ID_1'', ''ID_2'']
 \<and> ''ID_1'' \<noteq> ''ID_2''
 \<and> \<not> isDispatching mutual
 \<and> (7::nat) \<le> 7
 \<and> dispatch 7 0 mutual \<noteq> None
 \<and> fst (the (dispatch 7 0 mutual)) = Inl (CircularDependency ''ID_1'')
 \<and> entered (new_events mutual (snd (the (dispatch 7 0 mutual)))) = [''ID_1'', ''ID_2'']
 \<and> \<not> isDispatching (snd (the (dispatch 7 0 mutual)))
 \<and> dispatch 7 1 (snd (the (dispatch 7 0 mutual))) \<noteq> None
 \<and> fst (the (dispatch 7 1 (snd (the (dispatch 7 0 mutual))))) = Inr ()
 \<and> acts (new_events (snd (the (dispatch 7 0 mutual)))
       (snd (the (dispatch 7 1 (snd (the (dispatch 7 0 mutual))))))) = [''x'', ''y'']
 \<and> isDispatching first_entered
 \<and> truthy (isPending first_entered) ''ID_1''
 \<and> \<not> truthy (isHandled first_entered) ''ID_1''
 \<and> waitFor 1 [Subscriber ''ID_1''] first_entered
     = Some (Inl (CircularDependency ''ID_1''), first_entered)
 \<and> isDispatching third_entered
 \<and> map fst (payloadables third_entered) = [''ID_1'', ''ID_2'', ''ID_3'']
 \<and> \<not> truthy (isPending third_entered) ''ID_3''
 \<and> \<not> truthy (isPending third_entered) ''ID_2''
 \<and> \<not> truthy (isHandled third_entered) ''ID_3''
 \<and> invokePayloadable 6 FromWaitFor ''ID_3'' third_entered \<noteq> None
 \<and> fst (the (invokePayloadable 6 FromWaitFor ''ID_3'' third_entered))
     = Inl (CircularDependency ''ID_3'')
 \<and> trace (snd (the (invokePayloadable 6 FromWaitFor ''ID_3'' third_entered)))
     = [Enter FromDispatch ''ID_1'', Enter FromWaitFor ''ID_3'', Enter FromWaitFor ''ID_2'']
 \<and> trace (snd (the (dispatch 10 0 third_waits)))
     = [Enter FromDispatch ''ID_1'', Enter FromWaitFor ''ID_3'', Enter FromWaitFor ''ID_2'']
 \<and> dispatch 10 0 third_waits \<noteq> None
 \<and> fst (the (dispatch 10 0 third_waits)) = Inl (CircularDependency ''ID_3'')
 \<and> \<not> isDispatching one_and_mutual
 \<and> map fst (payloadables one_and_mutual) = [''ID_1''] @ ''ID_2'' # [''ID_3'']
 \<and> dispatch 10 0 one_and_mutual \<noteq> None
 \<and> fst (the (dispatch 10 0 one_and_mutual)) = Inl (CircularDependency ''ID_2'')
 \<and> \<not> isDispatching (snd (the (dispatch 10 0 one_and_mutual)))
 \<and> trace (snd (the (dispatch 10 0 one_and_mutual)))
     = [Enter FromDispatch ''ID_1'', Did ''w'', Leave ''ID_1'',
        Enter FromDispatch ''ID_2'', Did ''x'', Enter FromWaitFor ''ID_3'', Did ''y'']"
proof -
  let ?fx = "\<lambda>p :: nat option. if p = Some 0 then after ''ID_2'' ''x'' p else just ''x'' p"
  let ?fy = "\<lambda>p :: nat option. if p = Some 0 then after ''ID_1'' ''y'' p else just ''y'' p"
  have h1: "payloadables mutual = [(''ID_1'', ?fx), (''ID_2'', ?fy)]"
    by (simp add: mutual_def register_def new_dispatcher_def Let_def Prefix_def
        decimal_small digit_def Digits_def increment_def)
  have h2: "''ID_1'' \<noteq> ''ID_2''" by simp
  have h3: "\<not> isDispatching mutual" by (simp add: engine)
  have h4: "?fx (Some 0) = WaitFor [Subscriber ''ID_2''] (uncaught (Act ''x'' Return))"
    by (simp add: after_def)
  have h5: "?fy (Some 0) = WaitFor [Subscriber ''ID_1''] (uncaught (Act ''y'' Return))"
    by (simp add: after_def)
  have h6: "(7::nat) \<le> 7" by simp
  have q1: "?fx (Some 1) = Act ''x'' Return" by (simp add: just_def)
  have q2: "?fy (Some 1) = Act ''y'' Return" by (simp add: just_def)
  from circular_dependency [where st = mutual and tx = "''ID_1''" and ty = "''ID_2''"
      and fx = ?fx and fy = ?fy and payload = 0 and kx = "Act ''x'' Return"
      and ky = "Act ''y'' Return" and m = 7 and q = 1 and lx = "''x''" and ly = "''y''",
      THEN conjunct2, THEN conjunct2, THEN conjunct2, rule_format, OF h1 h2 h3 h4 h5 h6]
  obtain st' where
    d: "dispatch 7 0 mutual = Some (Inl (CircularDependency ''ID_1''), st')"
    and e: "entered (new_events mutual st') = [''ID_1'', ''ID_2'']"
    and nd: "\<not> isDispatching st'"
    and n: "?fx (Some 1) = Act ''x'' Return \<longrightarrow> ?fy (Some 1) = Act ''y'' Return \<longrightarrow>
        (\<exists>st''. dispatch 7 1 st' = Some (Inr (), st'')
             \<and> left (new_events st' st'') = [''ID_1'', ''ID_2'']
             \<and> acts (new_events st' st'') = [''x'', ''y''])"
    by blast
  from n q1 q2 obtain st'' where
    d2: "dispatch 7 1 st' = Some (Inr (), st'')"
    and a: "acts (new_events st' st'') = [''x'', ''y'']"
    by blast
  have s: "snd (the (dispatch 7 0 mutual)) = st'" unfolding d by simp
  have c1: "dispatch 7 0 mutual \<noteq> None" unfolding d by simp
  have c2: "fst (the (dispatch 7 0 mutual)) = Inl (CircularDependency ''ID_1'')" unfolding d by simp
  have c3: "entered (new_events mutual (snd (the (dispatch 7 0 mutual)))) = [''ID_1'', ''ID_2'']"
    unfolding s by (rule e)
  have c4: "\<not> isDispatching (snd (the (dispatch 7 0 mutual)))" unfolding s by (rule nd)
  have c5: "dispatch 7 1 (snd (the (dispatch 7 0 mutual))) \<noteq> None" unfolding s d2 by simp
  have c6: "fst (the (dispatch 7 1 (snd (the (dispatch 7 0 mutual))))) = Inr ()"
    unfolding s d2 by simp
  have c7: "acts (new_events (snd (the (dispatch 7 0 mutual)))
       (snd (the (dispatch 7 1 (snd (the (dispatch 7 0 mutual))))))) = [''x'', ''y'']"
    unfolding s d2 using a by simp
  have h1': "map fst (payloadables mutual) = [''ID_1'', ''ID_2'']" unfolding h1 by simp
  have w1: "isDispatching first_entered" by (simp add: engine)
  have w2: "truthy (isPending first_entered) ''ID_1''" by (simp add: engine)
  have w3: "\<not> truthy (isHandled first_entered) ''ID_1''" by (simp add: engine)
  have w4: "Nullish \<notin> set []" by simp
  have w5: "waitFor (Suc 0) [Subscriber ''ID_1''] first_entered
      = Some (Inl (CircularDependency ''ID_1''), first_entered)"
    by (rule circular_dependency [where s = first_entered and tx = "''ID_1''" and args = "[]"
          and n = 0, THEN conjunct1, rule_format, OF w1 w2 w3 w4])
  have w6: "waitFor 1 [Subscriber ''ID_1''] first_entered
      = Some (Inl (CircularDependency ''ID_1''), first_entered)"
    using w5 by (simp only: One_nat_def)
  let ?gx = "after ''ID_2'' ''y'' :: nat option \<Rightarrow> nat prog"
  let ?gy = "after ''ID_3'' ''x'' :: nat option \<Rightarrow> nat prog"
  have t1: "isDispatching third_entered" by (simp add: engine)
  have t2: "''ID_3'' \<noteq> ''ID_2''" by simp
  have t3: "map_of (payloadables third_entered) ''ID_3'' = Some ?gx" by (simp add: engine)
  have t4: "map_of (payloadables third_entered) ''ID_2'' = Some ?gy" by (simp add: engine)
  have t5: "\<not> truthy (isPending third_entered) ''ID_3''" by (simp add: engine)
  have t6: "\<not> truthy (isPending third_entered) ''ID_2''" by (simp add: engine)
  have t7: "\<not> truthy (isHandled third_entered) ''ID_3''" by (simp add: engine)
  have t8: "?gx (pendingPayload third_entered)
      = doing [] (WaitFor (Subscriber ''ID_2'' # []) (uncaught (Act ''y'' Return)))"
    by (simp add: after_def)
  have t9: "?gy (pendingPayload third_entered)
      = doing [] (WaitFor (Subscriber ''ID_3'' # []) (uncaught (Act ''x'' Return)))"
    by (simp add: after_def)
  have t10: "length ([] :: string list) + length ([] :: string list) + 6 \<le> (6::nat)" by simp
  have t11: "map fst (payloadables third_entered) = [''ID_1'', ''ID_2'', ''ID_3'']" by (simp add: engine)
  have i: "invokePayloadable 6 FromWaitFor ''ID_3'' third_entered = Some (Inl (CircularDependency ''ID_3''),
        third_entered\<lparr> isPending := (isPending third_entered)(''ID_3'' \<mapsto> True, ''ID_2'' \<mapsto> True),
           trace := trace third_entered @ Enter FromWaitFor ''ID_3'' # map Did []
                      @ Enter FromWaitFor ''ID_2'' # map Did [] \<rparr>)"
    by (rule circular_dependency [where s = third_entered and tx = "''ID_3''" and ty = "''ID_2''"
          and fx = ?gx and fy = ?gy and ax = "[]" and ay = "[]" and kx = "Act ''y'' Return"
          and ky = "Act ''x'' Return" and m = 6 and site = FromWaitFor and lsx = "[]" and lsy = "[]",
          THEN conjunct2, THEN conjunct1, rule_format, OF t1 t2 t3 t4 t5 t6 t7 t8 t9 w4 w4 t10])
  have i1: "invokePayloadable 6 FromWaitFor ''ID_3'' third_entered \<noteq> None" unfolding i by simp
  have i2: "fst (the (invokePayloadable 6 FromWaitFor ''ID_3'' third_entered))
      = Inl (CircularDependency ''ID_3'')"
    unfolding i by simp
  have i3: "trace (snd (the (invokePayloadable 6 FromWaitFor ''ID_3'' third_entered)))
      = [Enter FromDispatch ''ID_1'', Enter FromWaitFor ''ID_3'', Enter FromWaitFor ''ID_2'']"
    unfolding i by (simp add: third_entered_def)
  have i4: "trace (snd (the (dispatch 10 0 third_waits)))
     = [Enter FromDispatch ''ID_1'', Enter FromWaitFor ''ID_3'', Enter FromWaitFor ''ID_2'']"
    by (simp add: engine)
  have i5: "dispatch 10 0 third_waits \<noteq> None" by (simp add: engine)
  have i6: "fst (the (dispatch 10 0 third_waits)) = Inl (CircularDependency ''ID_3'')"
    by (simp add: engine)
  let ?hx = "acting_after ''x'' ''ID_3'' :: nat option \<Rightarrow> nat prog"
  let ?hy = "acting_after ''y'' ''ID_2'' :: nat option \<Rightarrow> nat prog"
  let ?s1 = "snd (the (dispatch_loop 10 [''ID_1''] (startDispatching 0 one_and_mutual)))"
  have o1: "\<not> isDispatching one_and_mutual" by (simp add: engine)
  have o2: "map fst (payloadables one_and_mutual) = [''ID_1''] @ ''ID_2'' # [''ID_3'']"
    by (simp add: engine)
  have o3: "dispatch_loop 10 [''ID_1''] (startDispatching 0 one_and_mutual) = Some (Inr (), ?s1)"
    by (simp add: engine)
  have o4: "''ID_2'' \<noteq> ''ID_3''" by simp
  have o5: "map_of (payloadables ?s1) ''ID_2'' = Some ?hx" by (simp add: engine)
  have o6: "map_of (payloadables ?s1) ''ID_3'' = Some ?hy" by (simp add: engine)
  have o7: "\<not> truthy (isPending ?s1) ''ID_2''" by (simp add: engine)
  have o8: "\<not> truthy (isPending ?s1) ''ID_3''" by (simp add: engine)
  have o9: "\<not> truthy (isHandled ?s1) ''ID_2''" by (simp add: engine)
  have o10: "?hx (Some 0) = doing [''x''] (WaitFor (Subscriber ''ID_3'' # []) (uncaught Return))"
    by (simp add: acting_after_def)
  have o11: "?hy (Some 0) = doing [''y''] (WaitFor (Subscriber ''ID_2'' # []) (uncaught Return))"
    by (simp add: acting_after_def)
  have o12: "length [''ID_1''] + length [''x''] + length [''y''] + 7 \<le> (10::nat)" by simp
  from circular_dependency [where st = one_and_mutual and pre = "[''ID_1'']" and tx = "''ID_2''"
      and post = "[''ID_3'']" and m = 10 and payload = 0 and ?s1.0 = ?s1 and ty = "''ID_3''"
      and fx = ?hx and fy = ?hy and ax = "[]" and ay = "[]" and kx = Return
      and ky = Return and lsx = "[''x'']" and lsy = "[''y'']",
      THEN conjunct2, THEN conjunct2, THEN conjunct1, rule_format,
      OF o1 o2 o3 o4 o5 o6 o7 o8 o9 o10 o11 w4 w4 o12]
  obtain su where
    du: "dispatch 10 0 one_and_mutual = Some (Inl (CircularDependency ''ID_2''), su)"
    and au: "acts (new_events ?s1 su) = [''x''] @ [''y'']"
    and ndu: "\<not> isDispatching su"
    by blast
  have "trace su = [Enter FromDispatch ''ID_1'', Did ''w'', Leave ''ID_1'',
        Enter FromDispatch ''ID_2'', Did ''x'', Enter FromWaitFor ''ID_3'', Did ''y'']"
    using du by (auto simp add: engine)
  then have u4: "trace (snd (the (dispatch 10 0 one_and_mutual)))
      = [Enter FromDispatch ''ID_1'', Did ''w'', Leave ''ID_1'',
         Enter FromDispatch ''ID_2'', Did ''x'', Enter FromWaitFor ''ID_3'', Did ''y'']"
    unfolding du by simp
  have u1: "dispatch 10 0 one_and_mutual \<noteq> None" unfolding du by simp
  have u2: "fst (the (dispatch 10 0 one_and_mutual)) = Inl (CircularDependency ''ID_2'')"
    unfolding du by simp
  have u3: "\<not> isDispatching (snd (the (dispatch 10 0 one_and_mutual)))" unfolding du using ndu by simp
  show ?thesis
    by (insert h1' h2 h3 h6 c1 c2 c3 c4 c5 c6 c7 w1 w2 w3 w6 t1 t11 t5 t6 t7 i1 i2 i3 i4 i5 i6 o1 o2 u1 u2 u3 u4,
        intro conjI; assumption)
qed

text \<open>
  The claim as stated fails. When the callback of Y catches the error that its \<open>waitFor\<close>
  raises, \<open>dispatch\<close> raises nothing: both callbacks return and so does \<open>dispatch\<close>. When
  nobody catches, the token that the error names is not the one whose callback is called
  second: the callback of \<open>ID_1\<close> is called first, that of \<open>ID_2\<close> second, and the error
  names \<open>ID_1\<close>. When the callback of X unregisters Y before it waits for it,
  \<open>dispatch\<close> raises the error of an unknown subscriber; and when it waits for a
  subscriber whose callback raises before it waits for Y, \<open>dispatch\<close> raises that
  subscriber's error.
\<close>

theorem circular_not_raised:
  "map_of (payloadables mutual_caught) ''ID_1'' = Some (after ''ID_2'' ''x'')
 \<and> map_of (payloadables mutual_caught) ''ID_2'' = Some (catching ''ID_1'' ''y'')
 \<and> dispatch 8 0 mutual_caught \<noteq> None
 \<and> fst (the (dispatch 8 0 mutual_caught)) = Inr ()
 \<and> trace (snd (the (dispatch 8 0 mutual_caught)))
     = [Enter FromDispatch ''ID_1'', Enter FromWaitFor ''ID_2'', Did ''y'', Leave ''ID_2'',
        Did ''x'', Leave ''ID_1'']
 \<and> dispatch 7 0 mutual \<noteq> None
 \<and> entered (trace (snd (the (dispatch 7 0 mutual)))) = [''ID_1'', ''ID_2'']
 \<and> fst (the (dispatch 7 0 mutual)) = Inl (CircularDependency ''ID_1'')
 \<and> map fst (payloadables mutual_unregistered) = [''ID_1'', ''ID_2'']
 \<and> dispatch 8 0 mutual_unregistered \<noteq> None
 \<and> fst (the (dispatch 8 0 mutual_unregistered)) = Inl (UnknownSubscriber ''ID_2'')
 \<and> map fst (payloadables mutual_behind) = [''ID_1'', ''ID_2'', ''ID_3'']
 \<and> dispatch 8 0 mutual_behind \<noteq> None
 \<and> fst (the (dispatch 8 0 mutual_behind)) = Inl (Thrown ''boom'')
 \<and> entered (trace (snd (the (dispatch 8 0 mutual_behind)))) = [''ID_1'', ''ID_3'']"
  by (simp add: engine)

end
